theory Spec2Isabelle
  imports Complex_Main
begin

section \<open>Data model (models.py)\<close>

text \<open>
  Python floats are modelled as exact reals: the grid positions are multiples of
  \<open>0.5\<close>, and every comparison of the source is a comparison of the same
  arithmetic expression here; rounding, and a loop that stalls once \<open>x + 0.5 = x\<close>
  in floating point, are outside the model. The record fields keep the names of the
  pydantic models; \<open>Position.x\<close>, \<open>Position.y\<close> and \<open>Room.id\<close> are
  renamed to \<open>pos_x\<close>, \<open>pos_y\<close> and \<open>room_id\<close>. A pydantic model
  object is always truthy, so a test such as \<open>if room.position\<close> distinguishes
  \<open>None\<close> only.
\<close>

record Dimensions =
  width :: real
  height :: real

definition dim_area :: "Dimensions \<Rightarrow> real" where
  "dim_area d = width d * height d"

record Position =
  pos_x :: real
  pos_y :: real

record Room =
  room_id :: string
  name :: string
  dimensions :: Dimensions
  room_type :: string
  position :: "Position option"
  priority :: int

definition room_area :: "Room \<Rightarrow> real" where
  "room_area r = dim_area (Room.dimensions r)"

text \<open>
  The values of \<open>Constraint.params\<close> have type \<open>Any\<close>: a string, a number, or
  anything else (\<open>None\<close>, a list, ...), which is equal to no string and cannot be
  ordered against a float.
\<close>

datatype pyval = PyStr string | PyNum real | PyOther

record Constraint =
  type :: string
  params :: "string \<rightharpoonup> pyval"
  description :: "string option"

record Space =
  dimensions :: Dimensions
  rooms :: "Room list"
  constraints :: "Constraint list"

definition space_area :: "Space \<Rightarrow> real" where
  "space_area sp = dim_area (Space.dimensions sp)"

text \<open>
  A violation message is an f-string of the source; it is modelled by a constructor
  that carries the values interpolated into the string.
\<close>

datatype violation =
    ExceedsWidth string real real
  | ExceedsHeight string real real
  | RoomsOverlap string string
  | MinDistanceViolated string string real real
  | AdjacencyViolated string string real real

record Metadata =
  total_rooms :: nat
  placed_count :: nat
  placement_rate :: real
  algorithm :: string

record Layout =
  space :: Space
  placed_rooms :: "Room list"
  score :: real
  violations :: "violation list"
  metadata :: Metadata

definition is_valid :: "Layout \<Rightarrow> bool" where
  "is_valid l = (length (violations l) = 0)"

datatype py_error = TypeError | ZeroDivisionError

section \<open>Constraint validation (constraints.py)\<close>

text \<open>The rectangle test shared by \<open>_rooms_overlap\<close> and \<open>_has_overlap\<close>.\<close>

definition rects_overlap :: "Position \<Rightarrow> Dimensions \<Rightarrow> Position \<Rightarrow> Dimensions \<Rightarrow> bool" where
  "rects_overlap p1 d1 p2 d2 =
     (let r1_x1 = pos_x p1; r1_y1 = pos_y p1;
          r1_x2 = r1_x1 + width d1; r1_y2 = r1_y1 + height d1;
          r2_x1 = pos_x p2; r2_y1 = pos_y p2;
          r2_x2 = r2_x1 + width d2; r2_y2 = r2_y1 + height d2
      in \<not> (r1_x2 \<le> r2_x1 \<or> r2_x2 \<le> r1_x1 \<or> r1_y2 \<le> r2_y1 \<or> r2_y2 \<le> r1_y1))"

definition rooms_overlap :: "Room \<Rightarrow> Room \<Rightarrow> bool" where
  "rooms_overlap room1 room2 =
     (case (position room1, position room2) of
        (Some p1, Some p2) \<Rightarrow>
          rects_overlap p1 (Room.dimensions room1) p2 (Room.dimensions room2)
      | _ \<Rightarrow> False)"

definition bounds_of_room :: "Space \<Rightarrow> Room \<Rightarrow> violation list" where
  "bounds_of_room sp room =
     (case position room of
        None \<Rightarrow> []
      | Some p \<Rightarrow>
          (let max_x = pos_x p + width (Room.dimensions room);
               max_y = pos_y p + height (Room.dimensions room)
           in (if max_x > width (Space.dimensions sp)
               then [ExceedsWidth (name room) max_x (width (Space.dimensions sp))] else [])
            @ (if max_y > height (Space.dimensions sp)
               then [ExceedsHeight (name room) max_y (height (Space.dimensions sp))] else [])))"

fun check_bounds :: "Space \<Rightarrow> Room list \<Rightarrow> violation list" where
  "check_bounds sp [] = []"
| "check_bounds sp (room # rest) = bounds_of_room sp room @ check_bounds sp rest"

fun overlaps_with :: "Room \<Rightarrow> Room list \<Rightarrow> violation list" where
  "overlaps_with room1 [] = []"
| "overlaps_with room1 (room2 # rest) =
     (if position room2 = None then overlaps_with room1 rest
      else if rooms_overlap room1 room2
           then RoomsOverlap (name room1) (name room2) # overlaps_with room1 rest
           else overlaps_with room1 rest)"

fun check_overlaps :: "Room list \<Rightarrow> violation list" where
  "check_overlaps [] = []"
| "check_overlaps (room1 # rest) =
     (if position room1 = None then check_overlaps rest
      else overlaps_with room1 rest @ check_overlaps rest)"

text \<open>\<open>_calculate_distance\<close> returns \<open>float('inf')\<close> when a position is missing.\<close>

datatype distance = Finite real | Infinity

definition calculate_distance :: "Room \<Rightarrow> Room \<Rightarrow> distance" where
  "calculate_distance room1 room2 =
     (case (position room1, position room2) of
        (Some p1, Some p2) \<Rightarrow>
          (let r1_cx = pos_x p1 + width (Room.dimensions room1) / 2;
               r1_cy = pos_y p1 + height (Room.dimensions room1) / 2;
               r2_cx = pos_x p2 + width (Room.dimensions room2) / 2;
               r2_cy = pos_y p2 + height (Room.dimensions room2) / 2
           in Finite (sqrt ((r1_cx - r2_cx)\<^sup>2 + (r1_cy - r2_cy)\<^sup>2)))
      | _ \<Rightarrow> Infinity)"

text \<open>
  \<open>dist < v\<close> and \<open>dist > v\<close> for a float \<open>dist\<close> and a parameter value
  \<open>v\<close>: Python raises \<open>TypeError\<close> unless \<open>v\<close> is a number.
\<close>

fun dist_less :: "distance \<Rightarrow> pyval \<Rightarrow> py_error + bool" where
  "dist_less (Finite d) (PyNum v) = Inr (d < v)"
| "dist_less Infinity (PyNum v) = Inr False"
| "dist_less d v = Inl TypeError"

fun dist_greater :: "distance \<Rightarrow> pyval \<Rightarrow> py_error + bool" where
  "dist_greater (Finite d) (PyNum v) = Inr (d > v)"
| "dist_greater Infinity (PyNum v) = Inr True"
| "dist_greater d v = Inl TypeError"

text \<open>\<open>next((r for r in rooms if r.id == v), None)\<close> with \<open>v = params.get(key)\<close>.\<close>

definition find_room :: "pyval option \<Rightarrow> Room list \<Rightarrow> Room option" where
  "find_room v rs = find (\<lambda>r. v = Some (PyStr (room_id r))) rs"

text \<open>The number interpolated into a message of a custom constraint.\<close>

fun num_of :: "pyval \<Rightarrow> real" where
  "num_of (PyNum v) = v"
| "num_of v = 0"

fun dist_of :: "distance \<Rightarrow> real" where
  "dist_of (Finite d) = d"
| "dist_of Infinity = 0"

definition check_min_distance :: "Room list \<Rightarrow> Constraint \<Rightarrow> py_error + violation list" where
  "check_min_distance rs constraint =
     (let room1_id = params constraint ''room1'';
          room2_id = params constraint ''room2'';
          min_dist = (case params constraint ''distance'' of None \<Rightarrow> PyNum 0 | Some v \<Rightarrow> v)
      in case (find_room room1_id rs, find_room room2_id rs) of
           (Some room1, Some room2) \<Rightarrow>
             (if position room1 \<noteq> None \<and> position room2 \<noteq> None then
                (let dist = calculate_distance room1 room2
                 in case dist_less dist min_dist of
                      Inl e \<Rightarrow> Inl e
                    | Inr True \<Rightarrow>
                        Inr [MinDistanceViolated (name room1) (name room2)
                               (dist_of dist) (num_of min_dist)]
                    | Inr False \<Rightarrow> Inr [])
              else Inr [])
         | _ \<Rightarrow> Inr [])"

definition check_adjacency :: "Room list \<Rightarrow> Constraint \<Rightarrow> py_error + violation list" where
  "check_adjacency rs constraint =
     (let room1_id = params constraint ''room1'';
          room2_id = params constraint ''room2'';
          max_dist = (case params constraint ''max_distance'' of None \<Rightarrow> PyNum 1 | Some v \<Rightarrow> v)
      in case (find_room room1_id rs, find_room room2_id rs) of
           (Some room1, Some room2) \<Rightarrow>
             (if position room1 \<noteq> None \<and> position room2 \<noteq> None then
                (let dist = calculate_distance room1 room2
                 in case dist_greater dist max_dist of
                      Inl e \<Rightarrow> Inl e
                    | Inr True \<Rightarrow>
                        Inr [AdjacencyViolated (name room1) (name room2)
                               (dist_of dist) (num_of max_dist)]
                    | Inr False \<Rightarrow> Inr [])
              else Inr [])
         | _ \<Rightarrow> Inr [])"

definition check_constraint :: "Room list \<Rightarrow> Constraint \<Rightarrow> py_error + violation list" where
  "check_constraint rs constraint =
     (if type constraint = ''min_distance'' then check_min_distance rs constraint
      else if type constraint = ''adjacency'' then check_adjacency rs constraint
      else Inr [])"

fun check_constraints :: "Room list \<Rightarrow> Constraint list \<Rightarrow> py_error + violation list" where
  "check_constraints rs [] = Inr []"
| "check_constraints rs (constraint # rest) =
     (case check_constraint rs constraint of
        Inl e \<Rightarrow> Inl e
      | Inr vs \<Rightarrow>
          (case check_constraints rs rest of
             Inl e \<Rightarrow> Inl e
           | Inr ws \<Rightarrow> Inr (vs @ ws)))"

definition check_custom_constraints :: "Space \<Rightarrow> Room list \<Rightarrow> py_error + violation list" where
  "check_custom_constraints sp rs = check_constraints rs (constraints sp)"

definition validate_layout :: "Space \<Rightarrow> Room list \<Rightarrow> py_error + violation list" where
  "validate_layout sp rs =
     (case check_custom_constraints sp rs of
        Inl e \<Rightarrow> Inl e
      | Inr cs \<Rightarrow> Inr (check_bounds sp rs @ check_overlaps rs @ cs))"

section \<open>Layout optimisation (optimizer.py)\<close>

text \<open>
  \<open>Room(id=room.id, name=room.name, dimensions=room.dimensions, room_type=room.room_type,
  priority=room.priority, position=position)\<close>: the fresh copy built for every trial
  position and for every placement.
\<close>

definition positioned :: "Room \<Rightarrow> Position \<Rightarrow> Room" where
  "positioned room pos =
     \<lparr>room_id = room_id room, name = name room, dimensions = Room.dimensions room,
      room_type = room_type room, position = Some pos, priority = priority room\<rparr>"

fun overlaps_any :: "Position \<Rightarrow> Dimensions \<Rightarrow> Room list \<Rightarrow> bool" where
  "overlaps_any p d [] = False"
| "overlaps_any p d (placed # rest) =
     (case position placed of
        None \<Rightarrow> overlaps_any p d rest
      | Some q \<Rightarrow>
          (if rects_overlap p d q (Room.dimensions placed) then True
           else overlaps_any p d rest))"

definition has_overlap :: "Room \<Rightarrow> Room list \<Rightarrow> bool" where
  "has_overlap room placed =
     (case position room of
        None \<Rightarrow> False
      | Some p \<Rightarrow> overlaps_any p (Room.dimensions room) placed)"

definition score_position :: "Position \<Rightarrow> real" where
  "score_position pos = - (pos_x pos + pos_y pos)"

text \<open>
  The search state is the pair \<open>(best_position, best_score)\<close>; the score
  \<open>None\<close> stands for the initial \<open>-float('inf')\<close>, below every score.
\<close>

type_synonym best = "Position option \<times> real option"

fun exceeds :: "real \<Rightarrow> real option \<Rightarrow> bool" where
  "exceeds s None = True"
| "exceeds s (Some b) = (s > b)"

definition try_position :: "Room \<Rightarrow> Room list \<Rightarrow> Position \<Rightarrow> best \<Rightarrow> best" where
  "try_position room placed pos b =
     (let temp_room = positioned room pos
      in if \<not> has_overlap temp_room placed then
           (let pos_score = score_position pos
            in if exceeds pos_score (snd b) then (Some pos, Some pos_score) else b)
         else b)"

function x_loop :: "Space \<Rightarrow> Room \<Rightarrow> Room list \<Rightarrow> real \<Rightarrow> real \<Rightarrow> best \<Rightarrow> best" where
  "x_loop sp room placed yv xv b =
     (if xv + width (Room.dimensions room) \<le> width (Space.dimensions sp)
      then x_loop sp room placed yv (xv + 1/2)
             (try_position room placed \<lparr>pos_x = xv, pos_y = yv\<rparr> b)
      else b)"
  by pat_completeness auto

termination x_loop
proof (relation "measure (\<lambda>(sp, room, placed, yv, xv, b).
        nat (\<lfloor>2 * (width (Space.dimensions sp) - width (Room.dimensions room) - xv)\<rfloor> + 1))",
       goal_cases)
  case 1
  show ?case by simp
next
  case (2 sp room placed yv xv b)
  define a where "a = 2 * (width (Space.dimensions sp) - width (Room.dimensions room) - xv)"
  have e: "2 * (width (Space.dimensions sp) - width (Room.dimensions room) - (xv + 1/2)) = a - 1"
    by (simp add: a_def algebra_simps)
  have "0 \<le> a"
    using 2 by (simp add: a_def)
  then have "0 \<le> \<lfloor>a\<rfloor>"
    by simp
  then have "nat (\<lfloor>a - 1\<rfloor> + 1) < nat (\<lfloor>a\<rfloor> + 1)"
    by simp
  then show ?case
    unfolding in_measure split_conv e a_def .
qed

function y_loop :: "Space \<Rightarrow> Room \<Rightarrow> Room list \<Rightarrow> real \<Rightarrow> best \<Rightarrow> best" where
  "y_loop sp room placed yv b =
     (if yv + height (Room.dimensions room) \<le> height (Space.dimensions sp)
      then y_loop sp room placed (yv + 1/2) (x_loop sp room placed yv 0 b)
      else b)"
  by pat_completeness auto

termination y_loop
proof (relation "measure (\<lambda>(sp, room, placed, yv, b).
        nat (\<lfloor>2 * (height (Space.dimensions sp) - height (Room.dimensions room) - yv)\<rfloor> + 1))",
       goal_cases)
  case 1
  show ?case by simp
next
  case (2 sp room placed yv b)
  define a where "a = 2 * (height (Space.dimensions sp) - height (Room.dimensions room) - yv)"
  have e: "2 * (height (Space.dimensions sp) - height (Room.dimensions room) - (yv + 1/2)) = a - 1"
    by (simp add: a_def algebra_simps)
  have "0 \<le> a"
    using 2 by (simp add: a_def)
  then have "0 \<le> \<lfloor>a\<rfloor>"
    by simp
  then have "nat (\<lfloor>a - 1\<rfloor> + 1) < nat (\<lfloor>a\<rfloor> + 1)"
    by simp
  then show ?case
    unfolding in_measure split_conv e a_def .
qed

definition find_best_position :: "Space \<Rightarrow> Room \<Rightarrow> Room list \<Rightarrow> Position option" where
  "find_best_position sp room placed = fst (y_loop sp room placed 0 (None, None))"

fun place_rooms :: "Space \<Rightarrow> Room list \<Rightarrow> Room list \<Rightarrow> Room list" where
  "place_rooms sp [] placed = placed"
| "place_rooms sp (room # rest) placed =
     (case find_best_position sp room placed of
        None \<Rightarrow> place_rooms sp rest placed
      | Some pos \<Rightarrow> place_rooms sp rest (placed @ [positioned room pos]))"

text \<open>
  \<open>sorted(self.space.rooms, key=lambda r: r.priority, reverse=True)\<close>: Python's
  sort is stable, also with \<open>reverse=True\<close>; descending priority is ascending
  negated priority.
\<close>

definition sorted_rooms :: "Space \<Rightarrow> Room list" where
  "sorted_rooms sp = sort_key (\<lambda>r. - priority r) (rooms sp)"

fun corner_sum :: "Room list \<Rightarrow> real" where
  "corner_sum [] = 0"
| "corner_sum (r # rest) =
     (case position r of
        None \<Rightarrow> corner_sum rest
      | Some p \<Rightarrow> (pos_x p + pos_y p) + corner_sum rest)"

definition placement_ratio :: "Space \<Rightarrow> Room list \<Rightarrow> real" where
  "placement_ratio sp placed =
     (if rooms sp \<noteq> [] then real (length placed) / real (length (rooms sp)) else 0)"

definition utilization :: "Space \<Rightarrow> Room list \<Rightarrow> real" where
  "utilization sp placed =
     (if space_area sp > 0 then sum_list (map room_area placed) / space_area sp else 0)"

definition utilization_bonus :: "real \<Rightarrow> real" where
  "utilization_bonus u = (if 6/10 \<le> u \<and> u \<le> 8/10 then 20 else if u > 8/10 then 10 else 0)"

text \<open>
  The compactness bonus divides by \<open>space.width + space.height\<close>; Python raises
  \<open>ZeroDivisionError\<close> when that sum is zero.
\<close>

definition compactness_bonus :: "Space \<Rightarrow> Room list \<Rightarrow> py_error + real" where
  "compactness_bonus sp placed =
     (if placed \<noteq> [] then
        (let avg_distance = corner_sum placed / real (length placed);
             max_distance = width (Space.dimensions sp) + height (Space.dimensions sp)
         in if max_distance = 0 then Inl ZeroDivisionError
            else Inr ((1 - avg_distance / max_distance) * 10))
      else Inr 0)"

definition calculate_score :: "Space \<Rightarrow> Room list \<Rightarrow> violation list \<Rightarrow> py_error + real" where
  "calculate_score sp placed vs =
     (case compactness_bonus sp placed of
        Inl e \<Rightarrow> Inl e
      | Inr c \<Rightarrow>
          Inr (0 + placement_ratio sp placed * 100 - real (length vs) * 10
               + utilization_bonus (utilization sp placed) + c))"

definition generate_layout :: "Space \<Rightarrow> py_error + Layout" where
  "generate_layout sp =
     (let placed = place_rooms sp (sorted_rooms sp) []
      in case validate_layout sp placed of
           Inl e \<Rightarrow> Inl e
         | Inr vs \<Rightarrow>
             (case calculate_score sp placed vs of
                Inl e \<Rightarrow> Inl e
              | Inr sc \<Rightarrow>
                  Inr \<lparr>space = sp, placed_rooms = placed, score = sc, violations = vs,
                       metadata = \<lparr>total_rooms = length (rooms sp),
                                   placed_count = length placed,
                                   placement_rate = placement_ratio sp placed,
                                   algorithm = ''greedy_priority''\<rparr>\<rparr>))"

section \<open>Specification-level notions\<close>

text \<open>
  A collision-free candidate of the grid search: a position on the half-unit grid at which
  the room lies within the far boundaries of the space and overlaps no placed room.
\<close>

definition free_candidate :: "Space \<Rightarrow> Room \<Rightarrow> Room list \<Rightarrow> Position \<Rightarrow> bool" where
  "free_candidate sp room placed p =
     ((\<exists>i j :: nat. pos_x p = real i / 2 \<and> pos_y p = real j / 2)
      \<and> pos_x p + width (Room.dimensions room) \<le> width (Space.dimensions sp)
      \<and> pos_y p + height (Room.dimensions room) \<le> height (Space.dimensions sp)
      \<and> \<not> has_overlap (positioned room p) placed)"

definition reaches :: "real \<Rightarrow> best \<Rightarrow> bool" where
  "reaches s b = (\<exists>s'. snd b = Some s' \<and> s \<le> s')"

definition dominated :: "best \<Rightarrow> best \<Rightarrow> bool" where
  "dominated b b' = (\<forall>s. snd b = Some s \<longrightarrow> reaches s b')"

definition search_inv :: "Space \<Rightarrow> Room \<Rightarrow> Room list \<Rightarrow> best \<Rightarrow> bool" where
  "search_inv sp room placed b =
     (b = (None, None)
      \<or> (\<exists>p. b = (Some p, Some (score_position p)) \<and> free_candidate sp room placed p))"

definition in_bounds :: "Space \<Rightarrow> Room \<Rightarrow> bool" where
  "in_bounds sp r =
     (case position r of
        None \<Rightarrow> False
      | Some p \<Rightarrow>
          0 \<le> pos_x p \<and> 0 \<le> pos_y p
          \<and> pos_x p + width (Room.dimensions r) \<le> width (Space.dimensions sp)
          \<and> pos_y p + height (Room.dimensions r) \<le> height (Space.dimensions sp))"

definition origin :: Position where
  "origin = \<lparr>pos_x = 0, pos_y = 0\<rparr>"

definition pairwise_free :: "Room list \<Rightarrow> bool" where
  "pairwise_free pl =
     (\<forall>i j. i < length pl \<longrightarrow> j < length pl \<longrightarrow> i \<noteq> j \<longrightarrow> \<not> rooms_overlap (pl ! i) (pl ! j))"

text \<open>Scan order of the grid search: row by row, left to right within a row.\<close>

definition earlier :: "Position \<Rightarrow> Position \<Rightarrow> bool" where
  "earlier q p = (pos_y q < pos_y p \<or> (pos_y q = pos_y p \<and> pos_x q < pos_x p))"

text \<open>
  The first collision-free candidate in scan order, following the specification's
  wording: the same row-major scan as \<open>_find_best_position\<close>, stopping at the first
  candidate that overlaps no placed room.
\<close>

function first_free_x :: "Space \<Rightarrow> Room \<Rightarrow> Room list \<Rightarrow> real \<Rightarrow> real \<Rightarrow> Position option" where
  "first_free_x sp room placed yv xv =
     (if xv + width (Room.dimensions room) \<le> width (Space.dimensions sp) then
        (if \<not> has_overlap (positioned room \<lparr>pos_x = xv, pos_y = yv\<rparr>) placed
         then Some \<lparr>pos_x = xv, pos_y = yv\<rparr>
         else first_free_x sp room placed yv (xv + 1/2))
      else None)"
  by pat_completeness auto

termination first_free_x
proof (relation "measure (\<lambda>(sp, room, placed, yv, xv).
        nat (\<lfloor>2 * (width (Space.dimensions sp) - width (Room.dimensions room) - xv)\<rfloor> + 1))",
       goal_cases)
  case 1
  show ?case by simp
next
  case (2 sp room placed yv xv)
  define a where "a = 2 * (width (Space.dimensions sp) - width (Room.dimensions room) - xv)"
  have e: "2 * (width (Space.dimensions sp) - width (Room.dimensions room) - (xv + 1/2)) = a - 1"
    by (simp add: a_def algebra_simps)
  have "0 \<le> a"
    using 2 by (simp add: a_def)
  then have "0 \<le> \<lfloor>a\<rfloor>"
    by simp
  then have "nat (\<lfloor>a - 1\<rfloor> + 1) < nat (\<lfloor>a\<rfloor> + 1)"
    by simp
  then show ?case
    unfolding in_measure split_conv e a_def .
qed

function first_free_y :: "Space \<Rightarrow> Room \<Rightarrow> Room list \<Rightarrow> real \<Rightarrow> Position option" where
  "first_free_y sp room placed yv =
     (if yv + height (Room.dimensions room) \<le> height (Space.dimensions sp) then
        (case first_free_x sp room placed yv 0 of
           Some p \<Rightarrow> Some p
         | None \<Rightarrow> first_free_y sp room placed (yv + 1/2))
      else None)"
  by pat_completeness auto

termination first_free_y
proof (relation "measure (\<lambda>(sp, room, placed, yv).
        nat (\<lfloor>2 * (height (Space.dimensions sp) - height (Room.dimensions room) - yv)\<rfloor> + 1))",
       goal_cases)
  case 1
  show ?case by simp
next
  case (2 sp room placed yv)
  define a where "a = 2 * (height (Space.dimensions sp) - height (Room.dimensions room) - yv)"
  have e: "2 * (height (Space.dimensions sp) - height (Room.dimensions room) - (yv + 1/2)) = a - 1"
    by (simp add: a_def algebra_simps)
  have "0 \<le> a"
    using 2 by (simp add: a_def)
  then have "0 \<le> \<lfloor>a\<rfloor>"
    by simp
  then have "nat (\<lfloor>a - 1\<rfloor> + 1) < nat (\<lfloor>a\<rfloor> + 1)"
    by simp
  then show ?case
    unfolding in_measure split_conv e a_def .
qed

definition first_collision_free :: "Space \<Rightarrow> Room \<Rightarrow> Room list \<Rightarrow> Position option" where
  "first_collision_free sp room placed = first_free_y sp room placed 0"


text \<open>
  The numeric parameters of a constraint, when present, are numbers; a space built from
  validated dimensions and such constraints is one on which no comparison or division of
  the source can fail.
\<close>

definition numeric_params :: "Constraint \<Rightarrow> bool" where
  "numeric_params c =
     ((\<forall>v. params c ''distance'' = Some v \<longrightarrow> (\<exists>d. v = PyNum d))
      \<and> (\<forall>v. params c ''max_distance'' = Some v \<longrightarrow> (\<exists>d. v = PyNum d)))"

section \<open>Example inputs\<close>

text \<open>
  Two unit rooms in a space of 2 by 1, the lower priority first in the request.
\<close>

definition demo_A :: Room where
  "demo_A = \<lparr>room_id = ''a'', name = ''A'', dimensions = \<lparr>width = 1, height = 1\<rparr>,
              room_type = ''general'', position = None, priority = 10\<rparr>"

definition demo_B :: Room where
  "demo_B = \<lparr>room_id = ''b'', name = ''B'', dimensions = \<lparr>width = 1, height = 1\<rparr>,
              room_type = ''general'', position = None, priority = 1\<rparr>"

definition demo_space :: Space where
  "demo_space = \<lparr>dimensions = \<lparr>width = 2, height = 1\<rparr>, rooms = [demo_B, demo_A],
                  constraints = []\<rparr>"

definition demo_layout :: Layout where
  "demo_layout =
     \<lparr>space = demo_space,
      placed_rooms = [positioned demo_A \<lparr>pos_x = 0, pos_y = 0\<rparr>,
                      positioned demo_B \<lparr>pos_x = 1, pos_y = 0\<rparr>],
      score = 355 / 3, violations = [],
      metadata = \<lparr>total_rooms = 2, placed_count = 2, placement_rate = 1,
                  algorithm = ''greedy_priority''\<rparr>\<rparr>"

text \<open>
  A template room as the request layer builds it: no position, room type
  \<open>general\<close> unless given.
\<close>

definition template :: "string \<Rightarrow> string \<Rightarrow> real \<Rightarrow> real \<Rightarrow> int \<Rightarrow> Room" where
  "template i n w h p =
     \<lparr>room_id = i, name = n, dimensions = \<lparr>width = w, height = h\<rparr>,
      room_type = ''general'', position = None, priority = p\<rparr>"

definition scenario_space :: "string \<Rightarrow> string \<Rightarrow> string \<Rightarrow> Space" where
  "scenario_space n1 n2 n3 =
     \<lparr>dimensions = \<lparr>width = 10, height = 8\<rparr>,
      rooms = [template ''room_0'' n1 5 4 9, template ''room_1'' n2 4 3 8,
               template ''room_2'' n3 3 3 7],
      constraints = []\<rparr>"

text \<open>
  A space of 2 by 1.5 in which a room of 1 by 0.5 sits at the origin; a room of 1 by 1
  is to be placed.
\<close>

definition strip_space :: Space where
  "strip_space = \<lparr>dimensions = \<lparr>width = 2, height = 3/2\<rparr>, rooms = [], constraints = []\<rparr>"

definition strip_placed :: "Room list" where
  "strip_placed = [positioned (template ''room_0'' ''Shelf'' 1 (1/2) 9) \<lparr>pos_x = 0, pos_y = 0\<rparr>]"

definition strip_room :: Room where
  "strip_room = template ''room_1'' ''Desk'' 1 1 5"

definition scenario_placed :: "string \<Rightarrow> string \<Rightarrow> string \<Rightarrow> Room list" where
  "scenario_placed n1 n2 n3 =
     [positioned (template ''room_0'' n1 5 4 9) \<lparr>pos_x = 0, pos_y = 0\<rparr>,
      positioned (template ''room_1'' n2 4 3 8) \<lparr>pos_x = 0, pos_y = 4\<rparr>,
      positioned (template ''room_2'' n3 3 3 7) \<lparr>pos_x = 5, pos_y = 0\<rparr>]"




section \<open>The grid search\<close>

declare x_loop.simps [simp del] y_loop.simps [simp del]

lemma reaches_dominated: "reaches s b \<Longrightarrow> dominated b b' \<Longrightarrow> reaches s b'"
  unfolding reaches_def dominated_def by force

lemma dominated_refl: "dominated b b"
  unfolding reaches_def dominated_def by simp

lemma dominated_trans: "dominated a b \<Longrightarrow> dominated b c \<Longrightarrow> dominated a c"
  unfolding dominated_def using reaches_dominated [unfolded dominated_def] by blast

lemma try_position_dominated: "dominated b (try_position room placed pos b)"
  unfolding dominated_def reaches_def try_position_def Let_def
  by (cases "snd b") auto

lemma try_position_reaches:
  "\<not> has_overlap (positioned room pos) placed \<Longrightarrow>
   reaches (score_position pos) (try_position room placed pos b)"
  unfolding reaches_def try_position_def Let_def
  by (cases "snd b") auto

lemma try_position_inv:
  "search_inv sp room placed b \<Longrightarrow>
   (\<exists>i j :: nat. pos_x pos = real i / 2 \<and> pos_y pos = real j / 2) \<Longrightarrow>
   pos_x pos + width (Room.dimensions room) \<le> width (Space.dimensions sp) \<Longrightarrow>
   pos_y pos + height (Room.dimensions room) \<le> height (Space.dimensions sp) \<Longrightarrow>
   search_inv sp room placed (try_position room placed pos b)"
  unfolding search_inv_def try_position_def Let_def free_candidate_def
  by auto

lemma x_loop_props:
  "search_inv sp room placed b \<Longrightarrow>
   (\<exists>k :: nat. xv = real k / 2) \<Longrightarrow> (\<exists>j :: nat. yv = real j / 2) \<Longrightarrow>
   yv + height (Room.dimensions room) \<le> height (Space.dimensions sp) \<Longrightarrow>
   search_inv sp room placed (x_loop sp room placed yv xv b)
   \<and> dominated b (x_loop sp room placed yv xv b)
   \<and> (\<forall>n :: nat.
        xv + real n / 2 + width (Room.dimensions room) \<le> width (Space.dimensions sp) \<longrightarrow>
        \<not> has_overlap (positioned room \<lparr>pos_x = xv + real n / 2, pos_y = yv\<rparr>) placed \<longrightarrow>
        reaches (score_position \<lparr>pos_x = xv + real n / 2, pos_y = yv\<rparr>)
          (x_loop sp room placed yv xv b))"
proof (induction sp room placed yv xv b rule: x_loop.induct)
  case (1 sp room placed yv xv b)
  let ?w = "width (Room.dimensions room)"
  let ?W = "width (Space.dimensions sp)"
  show ?case
  proof (cases "xv + ?w \<le> ?W")
    case False
    then have e: "x_loop sp room placed yv xv b = b"
      by (subst x_loop.simps) simp
    have "\<And>n :: nat. \<not> xv + real n / 2 + ?w \<le> ?W"
    proof -
      fix n :: nat
      have "0 \<le> real n / 2" by simp
      with False show "\<not> xv + real n / 2 + ?w \<le> ?W" by linarith
    qed
    with "1.prems"(1) show ?thesis
      unfolding e by (simp add: dominated_refl)
  next
    case True
    let ?pos = "\<lparr>pos_x = xv, pos_y = yv\<rparr>"
    let ?b1 = "try_position room placed ?pos b"
    let ?r = "x_loop sp room placed yv (xv + 1/2) ?b1"
    have e: "x_loop sp room placed yv xv b = ?r"
      by (subst x_loop.simps) (simp add: True)
    have inv1: "search_inv sp room placed ?b1"
      using "1.prems" True by (intro try_position_inv) auto
    obtain k :: nat where k: "xv = real k / 2"
      using "1.prems"(2) by blast
    have next_grid: "\<exists>k' :: nat. xv + 1/2 = real k' / 2"
      by (rule exI [of _ "Suc k"]) (simp add: k field_simps)
    note IH = "1.IH" [OF True inv1 next_grid "1.prems"(3) "1.prems"(4)]
    have d: "dominated b ?r"
      using try_position_dominated IH dominated_trans by blast
    have cover: "reaches (score_position \<lparr>pos_x = xv + real n / 2, pos_y = yv\<rparr>) ?r"
      if fit: "xv + real n / 2 + ?w \<le> ?W"
        and free: "\<not> has_overlap (positioned room \<lparr>pos_x = xv + real n / 2, pos_y = yv\<rparr>) placed"
      for n :: nat
    proof (cases n)
      case 0
      with free have "reaches (score_position ?pos) ?b1"
        by (simp add: try_position_reaches)
      with IH have "reaches (score_position ?pos) ?r"
        using reaches_dominated by blast
      then show ?thesis
        using 0 by simp
    next
      case (Suc m)
      have s: "xv + real n / 2 = xv + 1/2 + real m / 2"
        by (simp add: Suc field_simps)
      show ?thesis
        using IH fit free unfolding s by blast
    qed
    show ?thesis
      unfolding e using IH d cover by blast
  qed
qed


lemma y_loop_props:
  "search_inv sp room placed b \<Longrightarrow>
   (\<exists>j :: nat. yv = real j / 2) \<Longrightarrow>
   search_inv sp room placed (y_loop sp room placed yv b)
   \<and> dominated b (y_loop sp room placed yv b)
   \<and> (\<forall>m n :: nat.
        yv + real m / 2 + height (Room.dimensions room) \<le> height (Space.dimensions sp) \<longrightarrow>
        real n / 2 + width (Room.dimensions room) \<le> width (Space.dimensions sp) \<longrightarrow>
        \<not> has_overlap (positioned room \<lparr>pos_x = real n / 2, pos_y = yv + real m / 2\<rparr>) placed \<longrightarrow>
        reaches (score_position \<lparr>pos_x = real n / 2, pos_y = yv + real m / 2\<rparr>)
          (y_loop sp room placed yv b))"
proof (induction sp room placed yv b rule: y_loop.induct)
  case (1 sp room placed yv b)
  let ?h = "height (Room.dimensions room)"
  let ?H = "height (Space.dimensions sp)"
  show ?case
  proof (cases "yv + ?h \<le> ?H")
    case False
    then have e: "y_loop sp room placed yv b = b"
      by (subst y_loop.simps) simp
    have "\<And>m :: nat. \<not> yv + real m / 2 + ?h \<le> ?H"
    proof -
      fix m :: nat
      have "0 \<le> real m / 2" by simp
      with False show "\<not> yv + real m / 2 + ?h \<le> ?H" by linarith
    qed
    with "1.prems"(1) show ?thesis
      unfolding e by (simp add: dominated_refl)
  next
    case True
    let ?b1 = "x_loop sp room placed yv 0 b"
    let ?r = "y_loop sp room placed (yv + 1/2) ?b1"
    have e: "y_loop sp room placed yv b = ?r"
      by (subst y_loop.simps) (simp add: True)
    have zero_grid: "\<exists>k :: nat. (0::real) = real k / 2"
      by (rule exI [of _ 0]) simp
    note row = x_loop_props [OF "1.prems"(1) zero_grid "1.prems"(2) True]
    obtain j :: nat where j: "yv = real j / 2"
      using "1.prems"(2) by blast
    have next_grid: "\<exists>j' :: nat. yv + 1/2 = real j' / 2"
      by (rule exI [of _ "Suc j"]) (simp add: j field_simps)
    have inv1: "search_inv sp room placed ?b1"
      using row by blast
    note IH = "1.IH" [OF True inv1 next_grid]
    have d: "dominated b ?r"
      using row IH dominated_trans by blast
    have cover: "reaches (score_position \<lparr>pos_x = real n / 2, pos_y = yv + real m / 2\<rparr>) ?r"
      if fity: "yv + real m / 2 + ?h \<le> ?H"
        and fitx: "real n / 2 + width (Room.dimensions room) \<le> width (Space.dimensions sp)"
        and free: "\<not> has_overlap (positioned room \<lparr>pos_x = real n / 2, pos_y = yv + real m / 2\<rparr>) placed"
      for m n :: nat
    proof (cases m)
      case 0
      have "reaches (score_position \<lparr>pos_x = 0 + real n / 2, pos_y = yv\<rparr>) ?b1"
        using row fitx free 0 by simp
      with IH have "reaches (score_position \<lparr>pos_x = 0 + real n / 2, pos_y = yv\<rparr>) ?r"
        using reaches_dominated by blast
      then show ?thesis
        using 0 by simp
    next
      case (Suc m')
      have s: "yv + real m / 2 = yv + 1/2 + real m' / 2"
        by (simp add: Suc field_simps)
      show ?thesis
        using IH fity fitx free unfolding s by blast
    qed
    show ?thesis
      unfolding e using IH d cover by blast
  qed
qed

lemma search_inv_init: "search_inv sp room placed (None, None)"
  by (simp add: search_inv_def)

lemma find_best_position_free:
  assumes "find_best_position sp room placed = Some p"
  shows "free_candidate sp room placed p"
proof -
  have "\<exists>j :: nat. (0::real) = real j / 2"
    by (rule exI [of _ 0]) simp
  from y_loop_props [OF search_inv_init this, of sp room placed]
  have "search_inv sp room placed (y_loop sp room placed 0 (None, None))"
    by blast
  with assms show ?thesis
    unfolding find_best_position_def search_inv_def by auto
qed

lemma find_best_position_covers:
  assumes "free_candidate sp room placed q"
  shows "\<exists>p. find_best_position sp room placed = Some p
             \<and> score_position q \<le> score_position p"
proof -
  let ?r = "y_loop sp room placed 0 (None, None)"
  have z: "\<exists>j :: nat. (0::real) = real j / 2"
    by (rule exI [of _ 0]) simp
  note props = y_loop_props [OF search_inv_init z, of sp room placed]
  obtain i j :: nat where ij: "pos_x q = real i / 2" "pos_y q = real j / 2"
    using assms unfolding free_candidate_def by blast
  have q: "q = \<lparr>pos_x = real i / 2, pos_y = 0 + real j / 2\<rparr>"
    using ij by simp
  have "reaches (score_position \<lparr>pos_x = real i / 2, pos_y = 0 + real j / 2\<rparr>) ?r"
    using props assms unfolding free_candidate_def q by simp
  then obtain s where s: "snd ?r = Some s" "score_position q \<le> s"
    unfolding reaches_def q by blast
  have "search_inv sp room placed ?r"
    using props by blast
  with s show ?thesis
    unfolding find_best_position_def search_inv_def by auto
qed

section \<open>The overlap test\<close>

lemma rects_overlap_sym: "rects_overlap p1 d1 p2 d2 = rects_overlap p2 d2 p1 d1"
  unfolding rects_overlap_def Let_def by auto

lemma rooms_overlap_sym: "rooms_overlap a b = rooms_overlap b a"
  unfolding rooms_overlap_def
  using rects_overlap_sym by (auto split: option.splits)

lemma overlaps_any_iff:
  "overlaps_any p d placed =
     (\<exists>b \<in> set placed. \<exists>q. position b = Some q \<and> rects_overlap p d q (Room.dimensions b))"
  by (induction placed) (auto split: option.splits)

lemma has_overlap_iff: "has_overlap a placed = (\<exists>b \<in> set placed. rooms_overlap a b)"
  unfolding has_overlap_def rooms_overlap_def
  by (auto simp: overlaps_any_iff split: option.splits)

text \<open>
  C6: for positioned rooms A and B the overlap test (of the validator, and the one the
  optimizer inlines) is true iff
  NOT (A.x2 <= B.x1 OR B.x2 <= A.x1 OR A.y2 <= B.y1 OR B.y2 <= A.y1),
  with x2 = x + width and y2 = y + height; rooms that touch along an edge do not overlap.
\<close>

theorem overlap_test_half_open:
  "position a = Some pa \<Longrightarrow> position b = Some pb \<Longrightarrow>
   (rooms_overlap a b
      = (\<not> (pos_x pa + width (Room.dimensions a) \<le> pos_x pb
            \<or> pos_x pb + width (Room.dimensions b) \<le> pos_x pa
            \<or> pos_y pa + height (Room.dimensions a) \<le> pos_y pb
            \<or> pos_y pb + height (Room.dimensions b) \<le> pos_y pa)))
   \<and> has_overlap a [b] = rooms_overlap a b
   \<and> (pos_x pa + width (Room.dimensions a) = pos_x pb
        \<or> pos_x pb + width (Room.dimensions b) = pos_x pa
        \<or> pos_y pa + height (Room.dimensions a) = pos_y pb
        \<or> pos_y pb + height (Room.dimensions b) = pos_y pa
       \<longrightarrow> \<not> rooms_overlap a b \<and> \<not> has_overlap a [b])"
  by (auto simp: has_overlap_iff rooms_overlap_def rects_overlap_def Let_def)

theorem overlap_test_half_open_witness:
  "\<not> rooms_overlap
       \<lparr>room_id = ''a'', name = ''A'', dimensions = \<lparr>width = 5, height = 4\<rparr>,
        room_type = ''general'', position = Some \<lparr>pos_x = 0, pos_y = 0\<rparr>, priority = 5\<rparr>
       \<lparr>room_id = ''b'', name = ''B'', dimensions = \<lparr>width = 4, height = 3\<rparr>,
        room_type = ''general'', position = Some \<lparr>pos_x = 5, pos_y = 0\<rparr>, priority = 5\<rparr>
   \<and> rooms_overlap
       \<lparr>room_id = ''a'', name = ''A'', dimensions = \<lparr>width = 5, height = 4\<rparr>,
        room_type = ''general'', position = Some \<lparr>pos_x = 0, pos_y = 0\<rparr>, priority = 5\<rparr>
       \<lparr>room_id = ''b'', name = ''B'', dimensions = \<lparr>width = 4, height = 3\<rparr>,
        room_type = ''general'', position = Some \<lparr>pos_x = 9/2, pos_y = 0\<rparr>, priority = 5\<rparr>"
  using overlap_test_half_open
    [of "\<lparr>room_id = ''a'', name = ''A'', dimensions = \<lparr>width = 5, height = 4\<rparr>,
         room_type = ''general'', position = Some \<lparr>pos_x = 0, pos_y = 0\<rparr>, priority = 5\<rparr>"
        "\<lparr>pos_x = 0, pos_y = 0\<rparr>"
        "\<lparr>room_id = ''b'', name = ''B'', dimensions = \<lparr>width = 4, height = 3\<rparr>,
         room_type = ''general'', position = Some \<lparr>pos_x = 5, pos_y = 0\<rparr>, priority = 5\<rparr>"
        "\<lparr>pos_x = 5, pos_y = 0\<rparr>"]
    overlap_test_half_open
    [of "\<lparr>room_id = ''a'', name = ''A'', dimensions = \<lparr>width = 5, height = 4\<rparr>,
         room_type = ''general'', position = Some \<lparr>pos_x = 0, pos_y = 0\<rparr>, priority = 5\<rparr>"
        "\<lparr>pos_x = 0, pos_y = 0\<rparr>"
        "\<lparr>room_id = ''b'', name = ''B'', dimensions = \<lparr>width = 4, height = 3\<rparr>,
         room_type = ''general'', position = Some \<lparr>pos_x = 9/2, pos_y = 0\<rparr>, priority = 5\<rparr>"
        "\<lparr>pos_x = 9/2, pos_y = 0\<rparr>"]
  by simp

section \<open>Placement\<close>

lemma free_candidate_nonneg:
  "free_candidate sp room placed p \<Longrightarrow> 0 \<le> pos_x p \<and> 0 \<le> pos_y p"
  unfolding free_candidate_def by auto

lemma find_best_position_None:
  "(find_best_position sp room placed = None) = (\<forall>q. \<not> free_candidate sp room placed q)"
  using find_best_position_free find_best_position_covers
  by (metis option.distinct(1) option.exhaust)

lemma find_best_position_max:
  assumes "find_best_position sp room placed = Some p"
    and "free_candidate sp room placed q"
  shows "score_position q \<le> score_position p"
  using find_best_position_covers [OF assms(2)] assms(1) by auto

lemma free_candidate_origin:
  assumes "width (Room.dimensions room) \<le> width (Space.dimensions sp)"
    and "height (Room.dimensions room) \<le> height (Space.dimensions sp)"
    and "\<not> has_overlap (positioned room origin) placed"
  shows "free_candidate sp room placed origin"
proof -
  have "\<exists>i j :: nat. pos_x origin = real i / 2 \<and> pos_y origin = real j / 2"
    by (rule exI [of _ 0], rule exI [of _ 0]) (simp add: origin_def)
  with assms show ?thesis
    unfolding free_candidate_def by (simp add: origin_def)
qed

lemma find_best_position_origin:
  assumes "width (Room.dimensions room) \<le> width (Space.dimensions sp)"
    and "height (Room.dimensions room) \<le> height (Space.dimensions sp)"
    and "\<not> has_overlap (positioned room origin) placed"
  shows "find_best_position sp room placed = Some origin"
proof -
  note fc = free_candidate_origin [OF assms]
  obtain p where p: "find_best_position sp room placed = Some p"
    and le: "score_position origin \<le> score_position p"
    using find_best_position_covers [OF fc] by blast
  have "0 \<le> pos_x p \<and> 0 \<le> pos_y p"
    using find_best_position_free [OF p] free_candidate_nonneg by blast
  with le have "pos_x p = 0 \<and> pos_y p = 0"
    by (simp add: score_position_def origin_def)
  then have "p = origin"
    by (cases p) (simp add: origin_def)
  with p show ?thesis by simp
qed

lemma place_rooms_invariant:
  assumes "P placed"
    and "\<And>room pos pl. room \<in> set rs \<Longrightarrow> P pl \<Longrightarrow>
           find_best_position sp room pl = Some pos \<Longrightarrow> P (pl @ [positioned room pos])"
  shows "P (place_rooms sp rs placed)"
  using assms
proof (induction rs arbitrary: placed)
  case Nil
  then show ?case by simp
next
  case (Cons room rest)
  show ?case
  proof (cases "find_best_position sp room placed")
    case None
    then show ?thesis
      using Cons by simp
  next
    case (Some pos)
    have "P (placed @ [positioned room pos])"
      using Cons.prems Some by simp
    then have "P (place_rooms sp rest (placed @ [positioned room pos]))"
      using Cons.prems(2) by (intro Cons.IH) auto
    then show ?thesis
      using Some by simp
  qed
qed

lemma pairwise_free_snoc:
  assumes "pairwise_free pl" and "\<not> has_overlap r pl"
  shows "pairwise_free (pl @ [r])"
proof -
  have new: "\<And>b. b \<in> set pl \<Longrightarrow> \<not> rooms_overlap r b \<and> \<not> rooms_overlap b r"
    using assms(2) rooms_overlap_sym by (auto simp: has_overlap_iff)
  show ?thesis
    unfolding pairwise_free_def
  proof (intro allI impI)
    fix i j
    assume i: "i < length (pl @ [r])" and j: "j < length (pl @ [r])" and ne: "i \<noteq> j"
    consider "i < length pl" "j < length pl" | "i < length pl" "j = length pl"
      | "i = length pl" "j < length pl"
      using i j ne by (cases "i < length pl"; cases "j < length pl") auto
    then show "\<not> rooms_overlap ((pl @ [r]) ! i) ((pl @ [r]) ! j)"
    proof cases
      case 1
      then show ?thesis
        using assms(1) ne unfolding pairwise_free_def by (simp add: nth_append)
    next
      case 2
      then show ?thesis
        using new [of "pl ! i"] by (simp add: nth_append)
    next
      case 3
      then show ?thesis
        using new [of "pl ! j"] by (simp add: nth_append)
    qed
  qed
qed

lemma place_rooms_pairwise_free: "pairwise_free (place_rooms sp rs [])"
proof (rule place_rooms_invariant)
  show "pairwise_free []"
    by (simp add: pairwise_free_def)
next
  fix room pos pl
  assume "pairwise_free pl" and "find_best_position sp room pl = Some pos"
  then show "pairwise_free (pl @ [positioned room pos])"
    using find_best_position_free [of sp room pl pos] pairwise_free_snoc
    unfolding free_candidate_def by blast
qed

lemma overlaps_with_empty:
  "(\<forall>b \<in> set rest. \<not> rooms_overlap a b) \<Longrightarrow> overlaps_with a rest = []"
  by (induction rest) auto

lemma check_overlaps_empty:
  "pairwise_free pl \<Longrightarrow> check_overlaps pl = []"
proof (induction pl)
  case Nil
  then show ?case by simp
next
  case (Cons a rest)
  have tl: "pairwise_free rest"
    unfolding pairwise_free_def
  proof (intro allI impI)
    fix i j
    assume "i < length rest" "j < length rest" "i \<noteq> j"
    then show "\<not> rooms_overlap (rest ! i) (rest ! j)"
      using Cons.prems [unfolded pairwise_free_def, rule_format, of "Suc i" "Suc j"] by simp
  qed
  have hd: "\<forall>b \<in> set rest. \<not> rooms_overlap a b"
  proof
    fix b
    assume "b \<in> set rest"
    then obtain k where "k < length rest" "rest ! k = b"
      by (auto simp: in_set_conv_nth)
    then show "\<not> rooms_overlap a b"
      using Cons.prems [unfolded pairwise_free_def, rule_format, of 0 "Suc k"] by auto
  qed
  show ?case
    using Cons.IH [OF tl] overlaps_with_empty [OF hd] by simp
qed

lemma place_rooms_in_bounds: "\<forall>r \<in> set (place_rooms sp rs []). in_bounds sp r"
proof (rule place_rooms_invariant)
  show "\<forall>r \<in> set []. in_bounds sp r"
    by simp
next
  fix room pos pl
  assume "\<forall>r \<in> set pl. in_bounds sp r" and "find_best_position sp room pl = Some pos"
  then show "\<forall>r \<in> set (pl @ [positioned room pos]). in_bounds sp r"
    using find_best_position_free [of sp room pl pos] free_candidate_nonneg [of sp room pl pos]
    unfolding free_candidate_def in_bounds_def positioned_def by auto
qed

lemma check_bounds_empty:
  "(\<forall>r \<in> set pl. in_bounds sp r) \<Longrightarrow> check_bounds sp pl = []"
  by (induction pl) (auto simp: in_bounds_def bounds_of_room_def split: option.splits)

lemma place_rooms_copies:
  "\<forall>q \<in> set (place_rooms sp rs []). \<exists>r \<in> set rs. \<exists>pos. q = positioned r pos"
proof (rule place_rooms_invariant)
  show "\<forall>q \<in> set []. \<exists>r \<in> set rs. \<exists>pos. q = positioned r pos"
    by simp
next
  fix room pos pl
  assume "room \<in> set rs" and "\<forall>q \<in> set pl. \<exists>r \<in> set rs. \<exists>pos. q = positioned r pos"
  then show "\<forall>q \<in> set (pl @ [positioned room pos]). \<exists>r \<in> set rs. \<exists>pos. q = positioned r pos"
    by auto
qed

lemma generate_layout_Inr:
  assumes "generate_layout sp = Inr l"
  shows "placed_rooms l = place_rooms sp (sorted_rooms sp) []"
    and "space l = sp"
    and "validate_layout sp (placed_rooms l) = Inr (violations l)"
    and "calculate_score sp (placed_rooms l) (violations l) = Inr (score l)"
  using assms unfolding generate_layout_def Let_def
  by (auto split: sum.splits)

lemma set_sorted_rooms: "set (sorted_rooms sp) = set (rooms sp)"
  by (simp add: sorted_rooms_def)


lemmas search_eval =
  find_best_position_def x_loop.simps y_loop.simps try_position_def has_overlap_def
  positioned_def rects_overlap_def score_position_def Let_def

lemma demo_sorted: "sorted_rooms demo_space = [demo_A, demo_B]"
  by (simp add: sorted_rooms_def demo_space_def demo_A_def demo_B_def)

lemma demo_find_A: "find_best_position demo_space demo_A [] = Some \<lparr>pos_x = 0, pos_y = 0\<rparr>"
  by (simp add: search_eval demo_space_def demo_A_def)

lemma demo_find_B:
  "find_best_position demo_space demo_B [positioned demo_A \<lparr>pos_x = 0, pos_y = 0\<rparr>]
     = Some \<lparr>pos_x = 1, pos_y = 0\<rparr>"
  by (simp add: search_eval demo_space_def demo_A_def demo_B_def)

lemma demo_placed:
  "place_rooms demo_space (sorted_rooms demo_space) []
     = [positioned demo_A \<lparr>pos_x = 0, pos_y = 0\<rparr>, positioned demo_B \<lparr>pos_x = 1, pos_y = 0\<rparr>]"
  by (simp add: demo_sorted demo_find_A demo_find_B)

lemma demo_generate: "generate_layout demo_space = Inr demo_layout"
  unfolding generate_layout_def demo_placed
  by (simp add: demo_layout_def validate_layout_def check_custom_constraints_def
      bounds_of_room_def rooms_overlap_def rects_overlap_def positioned_def
      calculate_score_def compactness_bonus_def placement_ratio_def utilization_def
      utilization_bonus_def room_area_def space_area_def dim_area_def
      demo_space_def demo_A_def demo_B_def)

section \<open>Invariants of the generated layout\<close>

lemma positioned_update: "positioned r pos = r\<lparr>position := Some pos\<rparr>"
  by (cases r) (simp add: positioned_def)

text \<open>
  C2: in the layout returned by \<open>generate_layout\<close>, no two distinct placed rooms
  overlap under the half-open overlap test, so the overlap check of the validator reports
  nothing.
\<close>

theorem generate_layout_no_overlaps:
  "generate_layout sp = Inr l \<Longrightarrow>
   (\<forall>i j. i < length (placed_rooms l) \<longrightarrow> j < length (placed_rooms l) \<longrightarrow> i \<noteq> j \<longrightarrow>
      \<not> rooms_overlap (placed_rooms l ! i) (placed_rooms l ! j))
   \<and> check_overlaps (placed_rooms l) = []"
proof -
  assume g: "generate_layout sp = Inr l"
  have pf: "pairwise_free (placed_rooms l)"
    unfolding generate_layout_Inr(1) [OF g] by (rule place_rooms_pairwise_free)
  from pf check_overlaps_empty [OF pf] show ?thesis
    unfolding pairwise_free_def by blast
qed

theorem generate_layout_no_overlaps_witness:
  "generate_layout demo_space = Inr demo_layout
   \<and> length (placed_rooms demo_layout) = 2
   \<and> \<not> rooms_overlap (placed_rooms demo_layout ! 0) (placed_rooms demo_layout ! 1)
   \<and> check_overlaps (placed_rooms demo_layout) = []"
proof -
  have len: "length (placed_rooms demo_layout) = 2"
    by (simp add: demo_layout_def)
  note inst = generate_layout_no_overlaps [OF demo_generate]
  have a: "\<not> rooms_overlap (placed_rooms demo_layout ! 0) (placed_rooms demo_layout ! 1)"
    using inst [THEN conjunct1, rule_format, of 0 1] len by simp
  have b: "check_overlaps (placed_rooms demo_layout) = []"
    using inst [THEN conjunct2] .
  show ?thesis
    using demo_generate len a b by (intro conjI)
qed

text \<open>
  C3: every room placed by \<open>generate_layout\<close> has a position with x >= 0, y >= 0,
  x + width <= space.width and y + height <= space.height; the bounds check of the
  validator reports nothing.
\<close>

theorem generate_layout_within_bounds:
  "generate_layout sp = Inr l \<Longrightarrow>
   (\<forall>r \<in> set (placed_rooms l). \<exists>p. position r = Some p
        \<and> 0 \<le> pos_x p \<and> 0 \<le> pos_y p
        \<and> pos_x p + width (Room.dimensions r) \<le> width (Space.dimensions sp)
        \<and> pos_y p + height (Room.dimensions r) \<le> height (Space.dimensions sp))
   \<and> check_bounds sp (placed_rooms l) = []"
proof -
  assume g: "generate_layout sp = Inr l"
  have ib: "\<forall>r \<in> set (placed_rooms l). in_bounds sp r"
    unfolding generate_layout_Inr(1) [OF g] by (rule place_rooms_in_bounds)
  have "\<forall>r \<in> set (placed_rooms l). \<exists>p. position r = Some p
        \<and> 0 \<le> pos_x p \<and> 0 \<le> pos_y p
        \<and> pos_x p + width (Room.dimensions r) \<le> width (Space.dimensions sp)
        \<and> pos_y p + height (Room.dimensions r) \<le> height (Space.dimensions sp)"
    using ib unfolding in_bounds_def by (auto split: option.splits)
  with check_bounds_empty [OF ib] show ?thesis
    by blast
qed

theorem generate_layout_within_bounds_witness:
  "generate_layout demo_space = Inr demo_layout
   \<and> positioned demo_B \<lparr>pos_x = 1, pos_y = 0\<rparr> \<in> set (placed_rooms demo_layout)
   \<and> (\<exists>p. position (positioned demo_B \<lparr>pos_x = 1, pos_y = 0\<rparr>) = Some p
        \<and> 0 \<le> pos_x p \<and> 0 \<le> pos_y p
        \<and> pos_x p + width (Room.dimensions (positioned demo_B \<lparr>pos_x = 1, pos_y = 0\<rparr>))
             \<le> width (Space.dimensions demo_space)
        \<and> pos_y p + height (Room.dimensions (positioned demo_B \<lparr>pos_x = 1, pos_y = 0\<rparr>))
             \<le> height (Space.dimensions demo_space))
   \<and> check_bounds demo_space (placed_rooms demo_layout) = []"
proof -
  have m: "positioned demo_B \<lparr>pos_x = 1, pos_y = 0\<rparr> \<in> set (placed_rooms demo_layout)"
    by (simp add: demo_layout_def)
  note inst = generate_layout_within_bounds [OF demo_generate]
  note a = inst [THEN conjunct1, rule_format, OF m]
  note b = inst [THEN conjunct2]
  show ?thesis
    using demo_generate m a b by (intro conjI)
qed

text \<open>
  C10: every placed room is a copy of a template room of the request that differs from
  it in the position only (same id, name, dimensions, room type and priority), and the
  layout carries the input space unchanged, so template rooms without a position stay
  without one.
\<close>

theorem generate_layout_frame:
  "generate_layout sp = Inr l \<Longrightarrow>
   (\<forall>q \<in> set (placed_rooms l). \<exists>r \<in> set (rooms sp). \<exists>pos.
        q = r\<lparr>position := Some pos\<rparr>
        \<and> room_id q = room_id r \<and> name q = name r
        \<and> Room.dimensions q = Room.dimensions r
        \<and> room_type q = room_type r \<and> priority q = priority r)
   \<and> space l = sp
   \<and> (\<forall>r \<in> set (rooms sp). position r = None \<longrightarrow> r \<in> set (rooms (space l)))"
proof -
  assume g: "generate_layout sp = Inr l"
  have copies: "\<forall>q \<in> set (placed_rooms l). \<exists>r \<in> set (rooms sp). \<exists>pos. q = positioned r pos"
    using place_rooms_copies [of sp "sorted_rooms sp"]
    unfolding generate_layout_Inr(1) [OF g] set_sorted_rooms .
  have "\<forall>q \<in> set (placed_rooms l). \<exists>r \<in> set (rooms sp). \<exists>pos.
        q = r\<lparr>position := Some pos\<rparr>
        \<and> room_id q = room_id r \<and> name q = name r
        \<and> Room.dimensions q = Room.dimensions r
        \<and> room_type q = room_type r \<and> priority q = priority r"
  proof
    fix q
    assume "q \<in> set (placed_rooms l)"
    with copies obtain r pos where r: "r \<in> set (rooms sp)" and q: "q = positioned r pos"
      by blast
    have "q = r\<lparr>position := Some pos\<rparr>
        \<and> room_id q = room_id r \<and> name q = name r
        \<and> Room.dimensions q = Room.dimensions r
        \<and> room_type q = room_type r \<and> priority q = priority r"
      unfolding q positioned_update by simp
    with r show "\<exists>r \<in> set (rooms sp). \<exists>pos.
        q = r\<lparr>position := Some pos\<rparr>
        \<and> room_id q = room_id r \<and> name q = name r
        \<and> Room.dimensions q = Room.dimensions r
        \<and> room_type q = room_type r \<and> priority q = priority r"
      by blast
  qed
  with generate_layout_Inr(2) [OF g] show ?thesis
    by simp
qed

theorem generate_layout_frame_witness:
  "generate_layout demo_space = Inr demo_layout
   \<and> demo_A\<lparr>position := Some \<lparr>pos_x = 0, pos_y = 0\<rparr>\<rparr> \<in> set (placed_rooms demo_layout)
   \<and> demo_A \<in> set (rooms demo_space) \<and> position demo_A = None
   \<and> demo_A \<in> set (rooms (space demo_layout))
   \<and> space demo_layout = demo_space"
proof -
  have m: "demo_A\<lparr>position := Some \<lparr>pos_x = 0, pos_y = 0\<rparr>\<rparr> \<in> set (placed_rooms demo_layout)"
    by (simp add: demo_layout_def positioned_update)
  have a: "demo_A \<in> set (rooms demo_space)"
    by (simp add: demo_space_def)
  have n: "position demo_A = None"
    by (simp add: demo_A_def)
  note inst = generate_layout_frame [OF demo_generate]
  note b = inst [THEN conjunct2, THEN conjunct2, rule_format, OF a n]
  note c = inst [THEN conjunct2, THEN conjunct1]
  show ?thesis
    using demo_generate m a n b c by (intro conjI)
qed

section \<open>The first candidate of maximal score\<close>

lemma exceeds_dominated: "exceeds s (snd b1) \<Longrightarrow> dominated b b1 \<Longrightarrow> exceeds s (snd b)"
  unfolding dominated_def reaches_def by (cases "snd b") auto

lemma reaches_exceeds: "reaches t b \<Longrightarrow> exceeds s (snd b) \<Longrightarrow> t < s"
  unfolding reaches_def by auto

lemma try_position_cases:
  "try_position room placed pos b = b
   \<or> (try_position room placed pos b = (Some pos, Some (score_position pos))
       \<and> exceeds (score_position pos) (snd b))"
  unfolding try_position_def Let_def by simp

lemma x_loop_first:
  "search_inv sp room placed b \<Longrightarrow>
   (\<exists>k :: nat. xv = real k / 2) \<Longrightarrow> (\<exists>j :: nat. yv = real j / 2) \<Longrightarrow>
   yv + height (Room.dimensions room) \<le> height (Space.dimensions sp) \<Longrightarrow>
   x_loop sp room placed yv xv b = b
   \<or> (\<exists>p. x_loop sp room placed yv xv b = (Some p, Some (score_position p))
          \<and> pos_y p = yv \<and> xv \<le> pos_x p \<and> exceeds (score_position p) (snd b)
          \<and> (\<forall>n :: nat. xv + real n / 2 < pos_x p \<longrightarrow>
                \<not> has_overlap (positioned room \<lparr>pos_x = xv + real n / 2, pos_y = yv\<rparr>) placed \<longrightarrow>
                score_position \<lparr>pos_x = xv + real n / 2, pos_y = yv\<rparr> < score_position p))"
proof (induction sp room placed yv xv b rule: x_loop.induct)
  case (1 sp room placed yv xv b)
  let ?w = "width (Room.dimensions room)"
  let ?W = "width (Space.dimensions sp)"
  show ?case
  proof (cases "xv + ?w \<le> ?W")
    case False
    then have "x_loop sp room placed yv xv b = b"
      by (subst x_loop.simps) simp
    then show ?thesis by simp
  next
    case True
    let ?pos = "\<lparr>pos_x = xv, pos_y = yv\<rparr>"
    let ?b1 = "try_position room placed ?pos b"
    let ?r = "x_loop sp room placed yv (xv + 1/2) ?b1"
    have e: "x_loop sp room placed yv xv b = ?r"
      by (subst x_loop.simps) (simp add: True)
    have inv1: "search_inv sp room placed ?b1"
      using "1.prems" True by (intro try_position_inv) auto
    obtain k :: nat where k: "xv = real k / 2"
      using "1.prems"(2) by blast
    have next_grid: "\<exists>k' :: nat. xv + 1/2 = real k' / 2"
      by (rule exI [of _ "Suc k"]) (simp add: k field_simps)
    note IH = "1.IH" [OF True inv1 next_grid "1.prems"(3) "1.prems"(4)]
    from IH show ?thesis
    proof (elim disjE exE conjE)
      assume same: "?r = ?b1"
      from try_position_cases [of room placed ?pos b] show ?thesis
      proof (elim disjE conjE)
        assume "?b1 = b"
        with same show ?thesis
          unfolding e by simp
      next
        assume new: "?b1 = (Some ?pos, Some (score_position ?pos))"
          and ex: "exceeds (score_position ?pos) (snd b)"
        have "\<forall>n :: nat. \<not> xv + real n / 2 < pos_x ?pos"
          by simp
        with same new ex show ?thesis
          unfolding e by (intro disjI2 exI [of _ ?pos]) simp
      qed
    next
      fix p
      assume r: "?r = (Some p, Some (score_position p))"
        and py: "pos_y p = yv" and px: "xv + 1/2 \<le> pos_x p"
        and ex: "exceeds (score_position p) (snd ?b1)"
        and before: "\<forall>n :: nat. xv + 1/2 + real n / 2 < pos_x p \<longrightarrow>
            \<not> has_overlap (positioned room \<lparr>pos_x = xv + 1/2 + real n / 2, pos_y = yv\<rparr>) placed \<longrightarrow>
            score_position \<lparr>pos_x = xv + 1/2 + real n / 2, pos_y = yv\<rparr> < score_position p"
      have ex_b: "exceeds (score_position p) (snd b)"
        using ex try_position_dominated exceeds_dominated by blast
      have cover: "score_position \<lparr>pos_x = xv + real n / 2, pos_y = yv\<rparr> < score_position p"
        if lt: "xv + real n / 2 < pos_x p"
          and free: "\<not> has_overlap (positioned room \<lparr>pos_x = xv + real n / 2, pos_y = yv\<rparr>) placed"
        for n :: nat
      proof (cases n)
        case 0
        with free have "reaches (score_position ?pos) ?b1"
          by (simp add: try_position_reaches)
        then have "score_position ?pos < score_position p"
          using ex by (rule reaches_exceeds)
        then show ?thesis
          using 0 by simp
      next
        case (Suc m)
        have s: "xv + real n / 2 = xv + 1/2 + real m / 2"
          by (simp add: Suc field_simps)
        show ?thesis
          using before lt free unfolding s by blast
      qed
      have "xv \<le> pos_x p"
        using px by simp
      with r py ex_b cover show ?thesis
        unfolding e by (intro disjI2 exI [of _ p]) simp
    qed
  qed
qed


lemma y_loop_first:
  "search_inv sp room placed b \<Longrightarrow>
   (\<exists>j :: nat. yv = real j / 2) \<Longrightarrow>
   y_loop sp room placed yv b = b
   \<or> (\<exists>p. y_loop sp room placed yv b = (Some p, Some (score_position p))
          \<and> yv \<le> pos_y p \<and> exceeds (score_position p) (snd b)
          \<and> (\<forall>m n :: nat.
                yv + real m / 2 + height (Room.dimensions room) \<le> height (Space.dimensions sp) \<longrightarrow>
                real n / 2 + width (Room.dimensions room) \<le> width (Space.dimensions sp) \<longrightarrow>
                \<not> has_overlap (positioned room \<lparr>pos_x = real n / 2, pos_y = yv + real m / 2\<rparr>) placed \<longrightarrow>
                earlier \<lparr>pos_x = real n / 2, pos_y = yv + real m / 2\<rparr> p \<longrightarrow>
                score_position \<lparr>pos_x = real n / 2, pos_y = yv + real m / 2\<rparr> < score_position p))"
proof (induction sp room placed yv b rule: y_loop.induct)
  case (1 sp room placed yv b)
  let ?h = "height (Room.dimensions room)"
  let ?H = "height (Space.dimensions sp)"
  show ?case
  proof (cases "yv + ?h \<le> ?H")
    case False
    then have "y_loop sp room placed yv b = b"
      by (subst y_loop.simps) simp
    then show ?thesis by simp
  next
    case True
    let ?b1 = "x_loop sp room placed yv 0 b"
    let ?r = "y_loop sp room placed (yv + 1/2) ?b1"
    have e: "y_loop sp room placed yv b = ?r"
      by (subst y_loop.simps) (simp add: True)
    have zero_grid: "\<exists>k :: nat. (0::real) = real k / 2"
      by (rule exI [of _ 0]) simp
    note row = x_loop_props [OF "1.prems"(1) zero_grid "1.prems"(2) True]
    note row_first = x_loop_first [OF "1.prems"(1) zero_grid "1.prems"(2) True]
    obtain j :: nat where j: "yv = real j / 2"
      using "1.prems"(2) by blast
    have next_grid: "\<exists>j' :: nat. yv + 1/2 = real j' / 2"
      by (rule exI [of _ "Suc j"]) (simp add: j field_simps)
    have inv1: "search_inv sp room placed ?b1"
      using row by blast
    have dom1: "dominated b ?b1"
      using row by blast
    note IH = "1.IH" [OF True inv1 next_grid]
    from IH show ?thesis
    proof (elim disjE exE conjE)
      assume same: "?r = ?b1"
      from row_first show ?thesis
      proof (elim disjE exE conjE)
        assume "?b1 = b"
        with same show ?thesis
          unfolding e by simp
      next
        fix p
        assume b1: "?b1 = (Some p, Some (score_position p))"
          and py: "pos_y p = yv" and ex: "exceeds (score_position p) (snd b)"
          and before: "\<forall>n :: nat. 0 + real n / 2 < pos_x p \<longrightarrow>
              \<not> has_overlap (positioned room \<lparr>pos_x = 0 + real n / 2, pos_y = yv\<rparr>) placed \<longrightarrow>
              score_position \<lparr>pos_x = 0 + real n / 2, pos_y = yv\<rparr> < score_position p"
        have cover: "score_position \<lparr>pos_x = real n / 2, pos_y = yv + real m / 2\<rparr> < score_position p"
          if free: "\<not> has_overlap (positioned room \<lparr>pos_x = real n / 2, pos_y = yv + real m / 2\<rparr>) placed"
            and early: "earlier \<lparr>pos_x = real n / 2, pos_y = yv + real m / 2\<rparr> p"
          for m n :: nat
        proof -
          have "0 \<le> real m / 2" by simp
          with early py have m0: "real m / 2 = 0" and lt: "real n / 2 < pos_x p"
            unfolding earlier_def by auto
          from before [rule_format, of n] lt free show ?thesis
            unfolding m0 by simp
        qed
        have "yv \<le> pos_y p"
          using py by simp
        with same b1 ex cover show ?thesis
          unfolding e by (intro disjI2 exI [of _ p]) simp
      qed
    next
      fix p
      assume r: "?r = (Some p, Some (score_position p))"
        and py: "yv + 1/2 \<le> pos_y p"
        and ex: "exceeds (score_position p) (snd ?b1)"
        and before: "\<forall>m n :: nat.
            yv + 1/2 + real m / 2 + ?h \<le> ?H \<longrightarrow>
            real n / 2 + width (Room.dimensions room) \<le> width (Space.dimensions sp) \<longrightarrow>
            \<not> has_overlap (positioned room \<lparr>pos_x = real n / 2, pos_y = yv + 1/2 + real m / 2\<rparr>) placed \<longrightarrow>
            earlier \<lparr>pos_x = real n / 2, pos_y = yv + 1/2 + real m / 2\<rparr> p \<longrightarrow>
            score_position \<lparr>pos_x = real n / 2, pos_y = yv + 1/2 + real m / 2\<rparr> < score_position p"
      have ex_b: "exceeds (score_position p) (snd b)"
        using ex dom1 by (rule exceeds_dominated)
      have cover: "score_position \<lparr>pos_x = real n / 2, pos_y = yv + real m / 2\<rparr> < score_position p"
        if fity: "yv + real m / 2 + ?h \<le> ?H"
          and fitx: "real n / 2 + width (Room.dimensions room) \<le> width (Space.dimensions sp)"
          and free: "\<not> has_overlap (positioned room \<lparr>pos_x = real n / 2, pos_y = yv + real m / 2\<rparr>) placed"
          and early: "earlier \<lparr>pos_x = real n / 2, pos_y = yv + real m / 2\<rparr> p"
        for m n :: nat
      proof (cases m)
        case 0
        have "reaches (score_position \<lparr>pos_x = 0 + real n / 2, pos_y = yv\<rparr>) ?b1"
          using row fitx free 0 by simp
        then have "score_position \<lparr>pos_x = 0 + real n / 2, pos_y = yv\<rparr> < score_position p"
          using ex by (rule reaches_exceeds)
        then show ?thesis
          using 0 by simp
      next
        case (Suc m')
        have s: "yv + real m / 2 = yv + 1/2 + real m' / 2"
          by (simp add: Suc field_simps)
        show ?thesis
          using before fity fitx free early unfolding s by blast
      qed
      have "yv \<le> pos_y p"
        using py by simp
      with r ex_b cover show ?thesis
        unfolding e by (intro disjI2 exI [of _ p]) simp
    qed
  qed
qed

lemma find_best_position_first:
  assumes "find_best_position sp room placed = Some p"
    and "free_candidate sp room placed q"
    and "earlier q p"
  shows "score_position q < score_position p"
proof -
  let ?r = "y_loop sp room placed 0 (None, None)"
  have z: "\<exists>j :: nat. (0::real) = real j / 2"
    by (rule exI [of _ 0]) simp
  note first = y_loop_first [OF search_inv_init z, of sp room placed]
  have ne: "?r \<noteq> (None, None)"
    using assms(1) unfolding find_best_position_def by auto
  obtain i j :: nat where ij: "pos_x q = real i / 2" "pos_y q = real j / 2"
    using assms(2) unfolding free_candidate_def by blast
  have q: "q = \<lparr>pos_x = real i / 2, pos_y = 0 + real j / 2\<rparr>"
    using ij by simp
  from first ne obtain p' where r: "?r = (Some p', Some (score_position p'))"
    and before: "\<forall>m n :: nat.
        0 + real m / 2 + height (Room.dimensions room) \<le> height (Space.dimensions sp) \<longrightarrow>
        real n / 2 + width (Room.dimensions room) \<le> width (Space.dimensions sp) \<longrightarrow>
        \<not> has_overlap (positioned room \<lparr>pos_x = real n / 2, pos_y = 0 + real m / 2\<rparr>) placed \<longrightarrow>
        earlier \<lparr>pos_x = real n / 2, pos_y = 0 + real m / 2\<rparr> p' \<longrightarrow>
        score_position \<lparr>pos_x = real n / 2, pos_y = 0 + real m / 2\<rparr> < score_position p'"
    by blast
  have p': "p' = p"
    using assms(1) r unfolding find_best_position_def by simp
  show ?thesis
    using before [rule_format, of j i] assms(2,3)
    unfolding free_candidate_def p' q by simp
qed

declare first_free_x.simps [simp del] first_free_y.simps [simp del]

lemma strip_best:
  "find_best_position strip_space strip_room strip_placed = Some \<lparr>pos_x = 0, pos_y = 1/2\<rparr>"
  by (simp add: search_eval strip_space_def strip_room_def strip_placed_def template_def)

lemma strip_first:
  "first_collision_free strip_space strip_room strip_placed = Some \<lparr>pos_x = 1, pos_y = 0\<rparr>"
  by (simp add: first_collision_free_def first_free_x.simps first_free_y.simps has_overlap_def
      positioned_def rects_overlap_def strip_space_def strip_room_def strip_placed_def template_def)

lemma first_collision_free_origin:
  assumes "free_candidate sp room placed origin"
  shows "first_collision_free sp room placed = Some origin"
proof -
  have fit: "0 + width (Room.dimensions room) \<le> width (Space.dimensions sp)"
    "0 + height (Room.dimensions room) \<le> height (Space.dimensions sp)"
    and free: "\<not> has_overlap (positioned room \<lparr>pos_x = 0, pos_y = 0\<rparr>) placed"
    using assms unfolding free_candidate_def origin_def by simp_all
  have "first_free_x sp room placed 0 0 = Some origin"
    using fit(1) free by (subst first_free_x.simps) (simp add: origin_def)
  then show ?thesis
    unfolding first_collision_free_def using fit(2) by (subst first_free_y.simps) simp
qed

text \<open>
  C1 as stated: the first collision-free candidate has the maximal score and is the
  position returned. In the strip example the first collision-free candidate is (1, 0)
  with score -1, while the search returns (0, 0.5) with score -0.5.
\<close>

theorem first_candidate_not_best:
  "first_collision_free strip_space strip_room strip_placed = Some \<lparr>pos_x = 1, pos_y = 0\<rparr>
   \<and> find_best_position strip_space strip_room strip_placed = Some \<lparr>pos_x = 0, pos_y = 1/2\<rparr>
   \<and> score_position \<lparr>pos_x = 1, pos_y = 0\<rparr> < score_position \<lparr>pos_x = 0, pos_y = 1/2\<rparr>
   \<and> find_best_position strip_space strip_room strip_placed
        \<noteq> first_collision_free strip_space strip_room strip_placed"
  by (simp add: strip_best strip_first score_position_def)

text \<open>
  C1 as amended: the search returns nothing exactly when no candidate is collision-free;
  otherwise it returns a collision-free candidate whose score -(x + y) is maximal among
  all collision-free candidates, and every collision-free candidate earlier in scan order
  scores strictly less. When the origin is a collision-free candidate it is both the
  first candidate and the position returned.
\<close>

theorem find_best_position_first_maximal:
  "(find_best_position sp room placed = None \<longleftrightarrow> (\<forall>q. \<not> free_candidate sp room placed q))
   \<and> (\<forall>p. find_best_position sp room placed = Some p \<longrightarrow>
          free_candidate sp room placed p
          \<and> (\<forall>q. free_candidate sp room placed q \<longrightarrow> score_position q \<le> score_position p)
          \<and> (\<forall>q. free_candidate sp room placed q \<longrightarrow> earlier q p \<longrightarrow>
                 score_position q < score_position p))
   \<and> (free_candidate sp room placed origin \<longrightarrow>
          find_best_position sp room placed = Some origin
          \<and> first_collision_free sp room placed = Some origin)"
proof (intro conjI allI impI)
  show "(find_best_position sp room placed = None) = (\<forall>q. \<not> free_candidate sp room placed q)"
    by (rule find_best_position_None)
next
  fix p
  assume "find_best_position sp room placed = Some p"
  then show "free_candidate sp room placed p"
    by (rule find_best_position_free)
next
  fix p q
  assume "find_best_position sp room placed = Some p" "free_candidate sp room placed q"
  then show "score_position q \<le> score_position p"
    by (rule find_best_position_max)
next
  fix p q
  assume "find_best_position sp room placed = Some p" "free_candidate sp room placed q"
    "earlier q p"
  then show "score_position q < score_position p"
    by (rule find_best_position_first)
next
  assume fc: "free_candidate sp room placed origin"
  then show "find_best_position sp room placed = Some origin"
    unfolding free_candidate_def
    by (intro find_best_position_origin) (simp_all add: origin_def)
  from fc show "first_collision_free sp room placed = Some origin"
    by (rule first_collision_free_origin)
qed

lemma strip_free: "free_candidate strip_space strip_room strip_placed \<lparr>pos_x = 1, pos_y = 0\<rparr>"
proof -
  have "\<exists>i j :: nat. (1::real) = real i / 2 \<and> (0::real) = real j / 2"
    by (rule exI [of _ 2], rule exI [of _ 0]) simp
  then show ?thesis
    unfolding free_candidate_def
    by (simp add: has_overlap_def positioned_def rects_overlap_def strip_space_def
        strip_room_def strip_placed_def template_def)
qed

lemma demo_free_origin: "free_candidate demo_space demo_A [] origin"
  by (rule free_candidate_origin)
     (simp_all add: demo_space_def demo_A_def has_overlap_def positioned_def)

theorem find_best_position_first_maximal_witness:
  "find_best_position strip_space strip_room strip_placed = Some \<lparr>pos_x = 0, pos_y = 1/2\<rparr>
   \<and> free_candidate strip_space strip_room strip_placed \<lparr>pos_x = 1, pos_y = 0\<rparr>
   \<and> earlier \<lparr>pos_x = 1, pos_y = 0\<rparr> \<lparr>pos_x = 0, pos_y = 1/2\<rparr>
   \<and> score_position \<lparr>pos_x = 1, pos_y = 0\<rparr> < score_position \<lparr>pos_x = 0, pos_y = 1/2\<rparr>
   \<and> free_candidate strip_space strip_room strip_placed \<lparr>pos_x = 0, pos_y = 1/2\<rparr>
   \<and> free_candidate demo_space demo_A [] origin
   \<and> find_best_position demo_space demo_A [] = Some origin
   \<and> first_collision_free demo_space demo_A [] = Some origin"
proof -
  have early: "earlier \<lparr>pos_x = 1, pos_y = 0\<rparr> \<lparr>pos_x = 0, pos_y = 1/2\<rparr>"
    by (simp add: earlier_def)
  note strip = find_best_position_first_maximal [of strip_space strip_room strip_placed]
  note found = strip [THEN conjunct2, THEN conjunct1, rule_format, OF strip_best]
  note less = found [THEN conjunct2, THEN conjunct2, rule_format, OF strip_free early]
  note demo = find_best_position_first_maximal [of demo_space demo_A "[]"]
  note at_origin = demo [THEN conjunct2, THEN conjunct2, rule_format, OF demo_free_origin]
  show ?thesis
    using strip_best strip_free early less found [THEN conjunct1] demo_free_origin
      at_origin [THEN conjunct1] at_origin [THEN conjunct2]
    by (intro conjI)
qed

section \<open>The scenario of 10 by 8\<close>

lemma scenario_sorted:
  "sorted_rooms (scenario_space n1 n2 n3)
     = [template ''room_0'' n1 5 4 9, template ''room_1'' n2 4 3 8, template ''room_2'' n3 3 3 7]"
  by (simp add: sorted_rooms_def scenario_space_def template_def)

lemma scenario_find_1:
  "find_best_position (scenario_space n1 n2 n3) (template ''room_0'' n1 5 4 9) []
     = Some \<lparr>pos_x = 0, pos_y = 0\<rparr>"
  using find_best_position_origin
    [of "template ''room_0'' n1 5 4 9" "scenario_space n1 n2 n3" "[]"]
  by (simp add: origin_def scenario_space_def template_def has_overlap_def positioned_def)

lemma scenario_find_2:
  "find_best_position (scenario_space n1 n2 n3) (template ''room_1'' n2 4 3 8)
     [positioned (template ''room_0'' n1 5 4 9) \<lparr>pos_x = 0, pos_y = 0\<rparr>]
     = Some \<lparr>pos_x = 0, pos_y = 4\<rparr>"
  by (simp add: search_eval scenario_space_def template_def)

lemma scenario_find_3:
  "find_best_position (scenario_space n1 n2 n3) (template ''room_2'' n3 3 3 7)
     [positioned (template ''room_0'' n1 5 4 9) \<lparr>pos_x = 0, pos_y = 0\<rparr>,
      positioned (template ''room_1'' n2 4 3 8) \<lparr>pos_x = 0, pos_y = 4\<rparr>]
     = Some \<lparr>pos_x = 5, pos_y = 0\<rparr>"
  by (simp add: search_eval scenario_space_def template_def)


lemma scenario_place_rooms:
  "place_rooms (scenario_space n1 n2 n3) (sorted_rooms (scenario_space n1 n2 n3)) []
     = scenario_placed n1 n2 n3"
  by (simp add: scenario_sorted scenario_find_1 scenario_find_2 scenario_find_3
      scenario_placed_def)

lemma scenario_validate:
  "validate_layout (scenario_space n1 n2 n3) (scenario_placed n1 n2 n3) = Inr []"
  by (simp add: validate_layout_def check_custom_constraints_def bounds_of_room_def
      rooms_overlap_def rects_overlap_def positioned_def scenario_placed_def
      scenario_space_def template_def)

lemma scenario_ratio:
  "placement_ratio (scenario_space n1 n2 n3) (scenario_placed n1 n2 n3) = 1"
  by (simp add: placement_ratio_def scenario_placed_def scenario_space_def)

lemma scenario_utilization:
  "utilization (scenario_space n1 n2 n3) (scenario_placed n1 n2 n3) = 41 / 80"
  by (simp add: utilization_def room_area_def space_area_def dim_area_def positioned_def
      scenario_placed_def scenario_space_def template_def)

lemma scenario_compactness:
  "compactness_bonus (scenario_space n1 n2 n3) (scenario_placed n1 n2 n3) = Inr (25 / 3)"
  by (simp add: compactness_bonus_def positioned_def scenario_placed_def scenario_space_def
      template_def)

lemma scenario_score:
  "calculate_score (scenario_space n1 n2 n3) (scenario_placed n1 n2 n3) [] = Inr (325 / 3)"
  by (simp add: calculate_score_def scenario_ratio scenario_utilization scenario_compactness
      utilization_bonus_def)

text \<open>
  C5: in the space of 10 by 8 with rooms 5 by 4 (priority 9), 4 by 3 (priority 8) and
  3 by 3 (priority 7) and no constraints, all three rooms are placed, there are no
  violations, the layout is valid, and the score lies strictly between 100 and 130:
  placement ratio 1, utilization 41/80 without bonus, positive compactness bonus.
\<close>

theorem scenario_layout:
  "\<exists>l. generate_layout (scenario_space n1 n2 n3) = Inr l
       \<and> length (placed_rooms l) = 3
       \<and> map position (placed_rooms l)
           = [Some \<lparr>pos_x = 0, pos_y = 0\<rparr>, Some \<lparr>pos_x = 0, pos_y = 4\<rparr>,
              Some \<lparr>pos_x = 5, pos_y = 0\<rparr>]
       \<and> violations l = [] \<and> is_valid l
       \<and> 100 < score l \<and> score l < 130 \<and> score l = 325 / 3
       \<and> placement_ratio (scenario_space n1 n2 n3) (placed_rooms l) = 1
       \<and> utilization (scenario_space n1 n2 n3) (placed_rooms l) = 41 / 80
       \<and> utilization_bonus (utilization (scenario_space n1 n2 n3) (placed_rooms l)) = 0
       \<and> compactness_bonus (scenario_space n1 n2 n3) (placed_rooms l) = Inr (25 / 3)"
proof -
  let ?sp = "scenario_space n1 n2 n3"
  let ?l = "\<lparr>space = ?sp, placed_rooms = scenario_placed n1 n2 n3, score = 325 / 3,
             violations = [],
             metadata = \<lparr>total_rooms = 3, placed_count = 3, placement_rate = 1,
                         algorithm = ''greedy_priority''\<rparr>\<rparr>"
  have len: "length (rooms ?sp) = 3" "length (scenario_placed n1 n2 n3) = 3"
    by (simp_all add: scenario_space_def scenario_placed_def)
  have g: "generate_layout ?sp = Inr ?l"
    unfolding generate_layout_def scenario_place_rooms
    by (simp add: scenario_validate scenario_score scenario_ratio len)
  have pos: "map position (scenario_placed n1 n2 n3)
      = [Some \<lparr>pos_x = 0, pos_y = 0\<rparr>, Some \<lparr>pos_x = 0, pos_y = 4\<rparr>,
         Some \<lparr>pos_x = 5, pos_y = 0\<rparr>]"
    by (simp add: scenario_placed_def positioned_def)
  show ?thesis
    by (rule exI [of _ ?l])
       (simp add: g len pos is_valid_def scenario_ratio scenario_utilization
          scenario_compactness utilization_bonus_def)
qed

section \<open>The bounds check\<close>

lemma bounds_of_room_positioned:
  "position room = Some p \<Longrightarrow>
   bounds_of_room sp room =
     (if pos_x p + width (Room.dimensions room) > width (Space.dimensions sp)
      then [ExceedsWidth (name room) (pos_x p + width (Room.dimensions room))
              (width (Space.dimensions sp))]
      else [])
     @ (if pos_y p + height (Room.dimensions room) > height (Space.dimensions sp)
        then [ExceedsHeight (name room) (pos_y p + height (Room.dimensions room))
                (height (Space.dimensions sp))]
        else [])"
  by (simp add: bounds_of_room_def Let_def)

lemma bounds_of_room_width_iff:
  "ExceedsWidth n a b \<in> set (bounds_of_room sp r) \<longleftrightarrow>
     (\<exists>p. position r = Some p \<and> n = name r
          \<and> a = pos_x p + width (Room.dimensions r)
          \<and> b = width (Space.dimensions sp) \<and> a > b)"
  by (cases "position r") (auto simp: bounds_of_room_def Let_def)

lemma bounds_of_room_height_iff:
  "ExceedsHeight n a b \<in> set (bounds_of_room sp r) \<longleftrightarrow>
     (\<exists>p. position r = Some p \<and> n = name r
          \<and> a = pos_y p + height (Room.dimensions r)
          \<and> b = height (Space.dimensions sp) \<and> a > b)"
  by (cases "position r") (auto simp: bounds_of_room_def Let_def)

lemma check_bounds_width_iff:
  "ExceedsWidth n a b \<in> set (check_bounds sp rs) \<longleftrightarrow>
     (\<exists>r \<in> set rs. \<exists>p. position r = Some p \<and> n = name r
          \<and> a = pos_x p + width (Room.dimensions r)
          \<and> b = width (Space.dimensions sp) \<and> a > b)"
proof (induction rs)
  case Nil
  show ?case by simp
next
  case (Cons r rest)
  show ?case
    unfolding check_bounds.simps set_append Un_iff Cons.IH bounds_of_room_width_iff
    by auto
qed

lemma check_bounds_height_iff:
  "ExceedsHeight n a b \<in> set (check_bounds sp rs) \<longleftrightarrow>
     (\<exists>r \<in> set rs. \<exists>p. position r = Some p \<and> n = name r
          \<and> a = pos_y p + height (Room.dimensions r)
          \<and> b = height (Space.dimensions sp) \<and> a > b)"
proof (induction rs)
  case Nil
  show ?case by simp
next
  case (Cons r rest)
  show ?case
    unfolding check_bounds.simps set_append Un_iff Cons.IH bounds_of_room_height_iff
    by auto
qed

lemma check_bounds_append:
  "check_bounds sp (rs1 @ rs2) = check_bounds sp rs1 @ check_bounds sp rs2"
  by (induction rs1) simp_all

text \<open>
  C7: the bounds check reports a positioned room iff x + width > space.width or
  y + height > space.height (strictly), one message per violated axis; a room that
  touches the far boundary exactly, such as a room of 10 by 8 at (0, 0) in a space of
  10 by 8, produces no message.
\<close>

theorem check_bounds_strict:
  "(ExceedsWidth n a b \<in> set (check_bounds sp rs) \<longleftrightarrow>
      (\<exists>r \<in> set rs. \<exists>p. position r = Some p \<and> n = name r
           \<and> a = pos_x p + width (Room.dimensions r)
           \<and> b = width (Space.dimensions sp) \<and> a > b))
   \<and> (ExceedsHeight n a b \<in> set (check_bounds sp rs) \<longleftrightarrow>
      (\<exists>r \<in> set rs. \<exists>p. position r = Some p \<and> n = name r
           \<and> a = pos_y p + height (Room.dimensions r)
           \<and> b = height (Space.dimensions sp) \<and> a > b))
   \<and> (position room = Some q \<longrightarrow>
        check_bounds sp [room] =
          (if pos_x q + width (Room.dimensions room) > width (Space.dimensions sp)
           then [ExceedsWidth (name room) (pos_x q + width (Room.dimensions room))
                   (width (Space.dimensions sp))]
           else [])
          @ (if pos_y q + height (Room.dimensions room) > height (Space.dimensions sp)
             then [ExceedsHeight (name room) (pos_y q + height (Room.dimensions room))
                     (height (Space.dimensions sp))]
             else [])
        \<and> length (check_bounds sp [room]) =
            (if pos_x q + width (Room.dimensions room) > width (Space.dimensions sp)
             then 1 else 0)
            + (if pos_y q + height (Room.dimensions room) > height (Space.dimensions sp)
               then 1 else 0))
   \<and> (position room = None \<longrightarrow> check_bounds sp [room] = [])
   \<and> check_bounds sp (rs @ rs') = check_bounds sp rs @ check_bounds sp rs'
   \<and> check_bounds \<lparr>dimensions = \<lparr>width = 10, height = 8\<rparr>, rooms = ts, constraints = cs\<rparr>
        [positioned (template i m 10 8 k) \<lparr>pos_x = 0, pos_y = 0\<rparr>] = []"
proof (intro conjI impI)
  show "ExceedsWidth n a b \<in> set (check_bounds sp rs) \<longleftrightarrow>
      (\<exists>r \<in> set rs. \<exists>p. position r = Some p \<and> n = name r
           \<and> a = pos_x p + width (Room.dimensions r)
           \<and> b = width (Space.dimensions sp) \<and> a > b)"
    by (rule check_bounds_width_iff)
  show "ExceedsHeight n a b \<in> set (check_bounds sp rs) \<longleftrightarrow>
      (\<exists>r \<in> set rs. \<exists>p. position r = Some p \<and> n = name r
           \<and> a = pos_y p + height (Room.dimensions r)
           \<and> b = height (Space.dimensions sp) \<and> a > b)"
    by (rule check_bounds_height_iff)
  show "check_bounds sp (rs @ rs') = check_bounds sp rs @ check_bounds sp rs'"
    by (rule check_bounds_append)
  show "check_bounds \<lparr>dimensions = \<lparr>width = 10, height = 8\<rparr>, rooms = ts, constraints = cs\<rparr>
        [positioned (template i m 10 8 k) \<lparr>pos_x = 0, pos_y = 0\<rparr>] = []"
    by (simp add: bounds_of_room_def positioned_def template_def)
next
  assume "position room = None"
  then show "check_bounds sp [room] = []"
    by (simp add: bounds_of_room_def)
next
  assume q: "position room = Some q"
  show "check_bounds sp [room] =
          (if pos_x q + width (Room.dimensions room) > width (Space.dimensions sp)
           then [ExceedsWidth (name room) (pos_x q + width (Room.dimensions room))
                   (width (Space.dimensions sp))]
           else [])
          @ (if pos_y q + height (Room.dimensions room) > height (Space.dimensions sp)
             then [ExceedsHeight (name room) (pos_y q + height (Room.dimensions room))
                     (height (Space.dimensions sp))]
             else [])"
    by (simp add: bounds_of_room_positioned [OF q])
  show "length (check_bounds sp [room]) =
            (if pos_x q + width (Room.dimensions room) > width (Space.dimensions sp)
             then 1 else 0)
            + (if pos_y q + height (Room.dimensions room) > height (Space.dimensions sp)
               then 1 else 0)"
    by (simp add: bounds_of_room_positioned [OF q])
qed

theorem check_bounds_strict_witness:
  "position (positioned demo_A \<lparr>pos_x = 3/2, pos_y = 1/2\<rparr>) = Some \<lparr>pos_x = 3/2, pos_y = 1/2\<rparr>
   \<and> check_bounds demo_space [positioned demo_A \<lparr>pos_x = 3/2, pos_y = 1/2\<rparr>]
        = [ExceedsWidth ''A'' (5/2) 2, ExceedsHeight ''A'' (3/2) 1]
   \<and> length (check_bounds demo_space [positioned demo_A \<lparr>pos_x = 3/2, pos_y = 1/2\<rparr>]) = 2
   \<and> position demo_A = None \<and> check_bounds demo_space [demo_A] = []"
proof -
  have q: "position (positioned demo_A \<lparr>pos_x = 3/2, pos_y = 1/2\<rparr>)
      = Some \<lparr>pos_x = 3/2, pos_y = 1/2\<rparr>"
    by (simp add: positioned_def)
  have n: "position demo_A = None"
    by (simp add: demo_A_def)
  note inst = check_bounds_strict
    [of _ _ _ demo_space "[]" "positioned demo_A \<lparr>pos_x = 3/2, pos_y = 1/2\<rparr>"
        "\<lparr>pos_x = 3/2, pos_y = 1/2\<rparr>"]
  note pos = inst [THEN conjunct2, THEN conjunct2, THEN conjunct1, rule_format, OF q]
  note inst' = check_bounds_strict [of _ _ _ demo_space "[]" demo_A]
  note unplaced = inst' [THEN conjunct2, THEN conjunct2, THEN conjunct2, THEN conjunct1,
      rule_format, OF n]
  have a: "check_bounds demo_space [positioned demo_A \<lparr>pos_x = 3/2, pos_y = 1/2\<rparr>]
        = [ExceedsWidth ''A'' (5/2) 2, ExceedsHeight ''A'' (3/2) 1]"
    using pos [THEN conjunct1] by (simp add: positioned_def demo_A_def demo_space_def)
  have b: "length (check_bounds demo_space [positioned demo_A \<lparr>pos_x = 3/2, pos_y = 1/2\<rparr>]) = 2"
    using pos [THEN conjunct2] by (simp add: positioned_def demo_A_def demo_space_def)
  show ?thesis
    using q a b n unplaced by (intro conjI)
qed

section \<open>Custom constraints\<close>










section \<open>Priority order\<close>

lemma sorted_rooms_desc: "sorted_wrt (\<lambda>a b. priority b \<le> priority a) (sorted_rooms sp)"
proof -
  have "sorted (map (\<lambda>r. - priority r) (sorted_rooms sp))"
    unfolding sorted_rooms_def by (rule sorted_sort_key)
  then show ?thesis
    by (simp add: sorted_map)
qed

lemma sorted_rooms_stable:
  "filter (\<lambda>r. priority r = k) (sorted_rooms sp) = filter (\<lambda>r. priority r = k) (rooms sp)"
  using sort_key_stable [of "\<lambda>r. - priority r" "- k" "rooms sp"]
  by (simp add: sorted_rooms_def)

lemma priority_positioned: "priority (positioned r pos) = priority r"
  by (simp add: positioned_def)

lemma place_rooms_desc:
  "sorted_wrt (\<lambda>a b. priority b \<le> priority a) rs \<Longrightarrow>
   sorted_wrt (\<lambda>a b. priority b \<le> priority a) placed \<Longrightarrow>
   (\<forall>q \<in> set placed. \<forall>r \<in> set rs. priority r \<le> priority q) \<Longrightarrow>
   sorted_wrt (\<lambda>a b. priority b \<le> priority a) (place_rooms sp rs placed)"
proof (induction rs arbitrary: placed)
  case Nil
  then show ?case by simp
next
  case (Cons r rest)
  have rest: "sorted_wrt (\<lambda>a b. priority b \<le> priority a) rest"
    and below: "\<forall>r' \<in> set rest. priority r' \<le> priority r"
    using Cons.prems(1) by simp_all
  show ?case
  proof (cases "find_best_position sp r placed")
    case None
    then show ?thesis
      using Cons.IH [OF rest Cons.prems(2)] Cons.prems(3) by simp
  next
    case (Some pos)
    let ?placed = "placed @ [positioned r pos]"
    have s: "sorted_wrt (\<lambda>a b. priority b \<le> priority a) ?placed"
      using Cons.prems(2,3) by (simp add: sorted_wrt_append priority_positioned)
    have b: "\<forall>q \<in> set ?placed. \<forall>r' \<in> set rest. priority r' \<le> priority q"
      using Cons.prems(3) below by (auto simp: priority_positioned)
    show ?thesis
      using Cons.IH [OF rest s b] Some by simp
  qed
qed

lemma same_corner_overlap:
  assumes "0 < width (Room.dimensions a)" "0 < height (Room.dimensions a)"
    and "0 < width (Room.dimensions b)" "0 < height (Room.dimensions b)"
  shows "has_overlap (positioned b pos) [positioned a pos]"
  using assms by (simp add: has_overlap_def positioned_def rects_overlap_def)

lemma two_rooms_by_priority:
  assumes two: "rooms sp = [a, b] \<or> rooms sp = [b, a]"
    and pr: "priority b < priority a"
    and dims_a: "0 < width (Room.dimensions a)" "0 < height (Room.dimensions a)"
    and dims_b: "0 < width (Room.dimensions b)" "0 < height (Room.dimensions b)"
    and fit: "width (Room.dimensions a) \<le> width (Space.dimensions sp)"
      "height (Room.dimensions a) \<le> height (Space.dimensions sp)"
  shows "place_rooms sp (sorted_rooms sp) [] = [positioned a origin]
         \<or> (\<exists>p. place_rooms sp (sorted_rooms sp) [] = [positioned a origin, positioned b p]
                \<and> p \<noteq> origin)"
proof -
  have srt: "sorted_rooms sp = [a, b]"
    using two pr by (auto simp: sorted_rooms_def)
  have first: "find_best_position sp a [] = Some origin"
    using fit by (intro find_best_position_origin) (simp_all add: has_overlap_iff)
  show ?thesis
  proof (cases "find_best_position sp b [positioned a origin]")
    case None
    then show ?thesis
      by (simp add: srt first)
  next
    case (Some p)
    have "\<not> has_overlap (positioned b p) [positioned a origin]"
      using find_best_position_free [OF Some] unfolding free_candidate_def by simp
    then have "p \<noteq> origin"
      using same_corner_overlap [OF dims_a dims_b] by auto
    moreover have "place_rooms sp (sorted_rooms sp) [] = [positioned a origin, positioned b p]"
      by (simp add: srt first Some)
    ultimately show ?thesis
      by blast
  qed
qed

text \<open>
  C9: rooms are attempted in descending priority, ties in their original order; so with
  two rooms A (higher priority, fitting the space) and B (lower priority), A is placed at
  the origin and B is placed elsewhere or not at all.
\<close>

theorem priority_order:
  "(\<forall>i j. i < j \<longrightarrow> j < length (sorted_rooms sp) \<longrightarrow>
        priority (sorted_rooms sp ! j) \<le> priority (sorted_rooms sp ! i))
   \<and> (\<forall>k. filter (\<lambda>r. priority r = k) (sorted_rooms sp)
           = filter (\<lambda>r. priority r = k) (rooms sp))
   \<and> (generate_layout sp = Inr l \<longrightarrow>
        placed_rooms l = place_rooms sp (sorted_rooms sp) []
        \<and> (\<forall>i j. i < j \<longrightarrow> j < length (placed_rooms l) \<longrightarrow>
               priority (placed_rooms l ! j) \<le> priority (placed_rooms l ! i)))
   \<and> (generate_layout sp = Inr l \<longrightarrow>
        (rooms sp = [a, b] \<or> rooms sp = [b, a]) \<longrightarrow> priority b < priority a \<longrightarrow>
        0 < width (Room.dimensions a) \<longrightarrow> 0 < height (Room.dimensions a) \<longrightarrow>
        0 < width (Room.dimensions b) \<longrightarrow> 0 < height (Room.dimensions b) \<longrightarrow>
        width (Room.dimensions a) \<le> width (Space.dimensions sp) \<longrightarrow>
        height (Room.dimensions a) \<le> height (Space.dimensions sp) \<longrightarrow>
        placed_rooms l = [positioned a origin]
        \<or> (\<exists>p. placed_rooms l = [positioned a origin, positioned b p] \<and> p \<noteq> origin))"
proof (intro conjI allI impI)
  fix i j
  assume "i < j" "j < length (sorted_rooms sp)"
  then show "priority (sorted_rooms sp ! j) \<le> priority (sorted_rooms sp ! i)"
    using sorted_rooms_desc [of sp] by (simp add: sorted_wrt_iff_nth_less)
next
  fix k
  show "filter (\<lambda>r. priority r = k) (sorted_rooms sp) = filter (\<lambda>r. priority r = k) (rooms sp)"
    by (rule sorted_rooms_stable)
next
  assume g: "generate_layout sp = Inr l"
  show "placed_rooms l = place_rooms sp (sorted_rooms sp) []"
    by (rule generate_layout_Inr(1) [OF g])
next
  fix i j
  assume g: "generate_layout sp = Inr l" and "i < j" "j < length (placed_rooms l)"
  have "sorted_wrt (\<lambda>a b. priority b \<le> priority a) (placed_rooms l)"
    unfolding generate_layout_Inr(1) [OF g]
    by (rule place_rooms_desc [OF sorted_rooms_desc]) simp_all
  with \<open>i < j\<close> \<open>j < length (placed_rooms l)\<close>
  show "priority (placed_rooms l ! j) \<le> priority (placed_rooms l ! i)"
    by (simp add: sorted_wrt_iff_nth_less)
next
  assume g: "generate_layout sp = Inr l"
    and h: "rooms sp = [a, b] \<or> rooms sp = [b, a]" "priority b < priority a"
    "0 < width (Room.dimensions a)" "0 < height (Room.dimensions a)"
    "0 < width (Room.dimensions b)" "0 < height (Room.dimensions b)"
    "width (Room.dimensions a) \<le> width (Space.dimensions sp)"
    "height (Room.dimensions a) \<le> height (Space.dimensions sp)"
  show "placed_rooms l = [positioned a origin]
        \<or> (\<exists>p. placed_rooms l = [positioned a origin, positioned b p] \<and> p \<noteq> origin)"
    unfolding generate_layout_Inr(1) [OF g] by (rule two_rooms_by_priority [OF h])
qed

theorem priority_order_witness:
  "generate_layout demo_space = Inr demo_layout
   \<and> rooms demo_space = [demo_B, demo_A] \<and> priority demo_B < priority demo_A
   \<and> (placed_rooms demo_layout = [positioned demo_A origin]
       \<or> (\<exists>p. placed_rooms demo_layout = [positioned demo_A origin, positioned demo_B p]
              \<and> p \<noteq> origin))
   \<and> placed_rooms demo_layout
       = [positioned demo_A origin, positioned demo_B \<lparr>pos_x = 1, pos_y = 0\<rparr>]
   \<and> priority (placed_rooms demo_layout ! 1) \<le> priority (placed_rooms demo_layout ! 0)"
proof -
  have rs: "rooms demo_space = [demo_B, demo_A]"
    by (simp add: demo_space_def)
  have pr: "priority demo_B < priority demo_A"
    by (simp add: demo_A_def demo_B_def)
  have da: "0 < width (Room.dimensions demo_A)" "0 < height (Room.dimensions demo_A)"
    and db: "0 < width (Room.dimensions demo_B)" "0 < height (Room.dimensions demo_B)"
    and fit: "width (Room.dimensions demo_A) \<le> width (Space.dimensions demo_space)"
      "height (Room.dimensions demo_A) \<le> height (Space.dimensions demo_space)"
    by (simp_all add: demo_A_def demo_B_def demo_space_def)
  have len: "1 < length (placed_rooms demo_layout)"
    by (simp add: demo_layout_def)
  note inst = priority_order [of demo_space demo_layout demo_A demo_B]
  note two = inst [THEN conjunct2, THEN conjunct2, THEN conjunct2, rule_format,
      OF demo_generate disjI2, OF rs pr da db fit]
  note desc = inst [THEN conjunct2, THEN conjunct2, THEN conjunct1, rule_format,
      OF demo_generate, THEN conjunct2, rule_format, OF zero_less_one len]
  have pl: "placed_rooms demo_layout
       = [positioned demo_A origin, positioned demo_B \<lparr>pos_x = 1, pos_y = 0\<rparr>]"
    by (simp add: demo_layout_def origin_def)
  show ?thesis
    using demo_generate rs pr two pl desc by (intro conjI)
qed

section \<open>Returning a layout\<close>

lemma check_min_distance_returns:
  "numeric_params c \<Longrightarrow> \<exists>vs. check_min_distance rs c = Inr vs"
  unfolding numeric_params_def check_min_distance_def calculate_distance_def Let_def
  by (auto split: option.splits sum.splits bool.splits)

lemma check_adjacency_returns:
  "numeric_params c \<Longrightarrow> \<exists>vs. check_adjacency rs c = Inr vs"
  unfolding numeric_params_def check_adjacency_def calculate_distance_def Let_def
  by (auto split: option.splits sum.splits bool.splits)

lemma check_constraints_returns:
  "\<forall>c \<in> set cs. numeric_params c \<Longrightarrow> \<exists>vs. check_constraints rs cs = Inr vs"
proof (induction cs)
  case Nil
  show ?case by simp
next
  case (Cons c cs)
  have "numeric_params c"
    using Cons.prems by simp
  then have "\<exists>vs. check_constraint rs c = Inr vs"
    unfolding check_constraint_def
    by (simp add: check_min_distance_returns check_adjacency_returns)
  then obtain vs where vs: "check_constraint rs c = Inr vs"
    by blast
  obtain ws where ws: "check_constraints rs cs = Inr ws"
    using Cons by auto
  show ?case
    by (simp add: vs ws)
qed

lemma generate_layout_returns:
  assumes "0 < width (Space.dimensions sp)" "0 < height (Space.dimensions sp)"
    and "\<forall>c \<in> set (constraints sp). numeric_params c"
  shows "\<exists>l. generate_layout sp = Inr l"
proof -
  let ?placed = "place_rooms sp (sorted_rooms sp) []"
  obtain cs where cs: "check_constraints ?placed (constraints sp) = Inr cs"
    using check_constraints_returns [OF assms(3)] by blast
  obtain vs where vs: "validate_layout sp ?placed = Inr vs"
    by (simp add: validate_layout_def check_custom_constraints_def cs)
  have "width (Space.dimensions sp) + height (Space.dimensions sp) \<noteq> 0"
    using assms(1,2) by simp
  then have "\<exists>b. compactness_bonus sp ?placed = Inr b"
    by (simp add: compactness_bonus_def Let_def)
  then obtain b where b: "compactness_bonus sp ?placed = Inr b"
    by blast
  obtain sc where sc: "calculate_score sp ?placed vs = Inr sc"
    by (simp add: calculate_score_def b)
  show ?thesis
    unfolding generate_layout_def Let_def by (simp add: vs sc)
qed

end
